theory Spec2Isabelle
  imports Complex_Main "HOL-Library.Log_Nat"
begin

section \<open>JavaScript numbers\<close>

text \<open>
  A JavaScript \<^verbatim>\<open>number\<close> is an IEEE-754 binary64 value. A finite one is modelled by the
  rational it denotes, and every arithmetic operation rounds its exact result to the nearest
  value with a 53-bit significand, ties to even (\<open>fl\<close>). The exponent is not bounded: the
  quantities of this program (row counts below \<open>2 ^ 32\<close>, integer scores, their quotients)
  stay far inside the normal range of binary64, where \<open>fl\<close> is the rounding of the
  hardware. \<^verbatim>\<open>Math.round\<close> is exact: the nearest integer, a tie going up.
\<close>

definition round_even :: "rat \<Rightarrow> int" where
  "round_even x =
     (let f = \<lfloor>x\<rfloor>; d = x - of_int f
      in if d < 1 / 2 then f else if 1 / 2 < d then f + 1 else if even f then f else f + 1)"

definition exponent :: "rat \<Rightarrow> int" where
  "exponent x =
     (let (p, q) = quotient_of x; k = bitlen p - bitlen q
      in if 2 powi k \<le> x then k else k - 1)"

definition fl :: "rat \<Rightarrow> rat" where
  "fl x =
     (if x = 0 then 0
      else let a = \<bar>x\<bar>; u = 2 powi (exponent a - 52)
           in sgn x * of_int (round_even (a / u)) * u)"

definition js_add :: "rat \<Rightarrow> rat \<Rightarrow> rat" where
  "js_add a b = fl (a + b)"

definition js_mul :: "rat \<Rightarrow> rat \<Rightarrow> rat" where
  "js_mul a b = fl (a * b)"

text \<open>
  A quotient by zero is \<^verbatim>\<open>Infinity\<close> or \<^verbatim>\<open>NaN\<close> in JavaScript, not an exception. Such a
  value is no rational: the division answers \<open>None\<close>, and the functions that use it pass
  \<open>None\<close> on.
\<close>

definition js_div :: "rat \<Rightarrow> rat \<Rightarrow> rat option" where
  "js_div a b = (if b = 0 then None else Some (fl (a / b)))"

definition Math_round :: "rat \<Rightarrow> int" where
  "Math_round x = \<lfloor>x + 1 / 2\<rfloor>"

text \<open>
  An integer column reaches the code as a JSON number, which the client parses to the nearest
  binary64 value (\<open>js_number\<close>). On the way back the code's number is written as its
  integer part (\<open>stored_int\<close>); the numbers this program sends to an integer column are
  integral, so nothing is cut off. The range of the column's type is not modelled.
\<close>

definition js_number :: "int \<Rightarrow> rat" where
  "js_number n = fl (of_int n)"

definition stored_int :: "rat \<Rightarrow> int" where
  "stored_int x = \<lfloor>x\<rfloor>"

section \<open>The row store\<close>

text \<open>
  The four tables the server action touches, with the columns it reads or writes. Row
  identifiers of \<^verbatim>\<open>user_courses\<close> and \<^verbatim>\<open>user_progress\<close> are assigned by the store on
  insert (a fresh non-zero key); user, activity and course identifiers are the strings the
  action receives. Timestamps are the ISO strings of \<^verbatim>\<open>new Date().toISOString()\<close>.
\<close>

record activity_row =
  act_id :: string
  act_course_id :: string
  act_status :: string

record user_course_row =
  uc_id :: nat
  uc_user_id :: string
  uc_course_id :: string
  uc_progress :: int
  uc_score :: int
  uc_created_at :: string
  uc_updated_at :: string

record user_progress_row =
  up_id :: nat
  up_user_id :: string
  up_activity_id :: string
  up_course_id :: string
  up_score :: int
  up_completed :: bool
  up_answers :: "string option"
  up_time_spent :: int
  up_updated_at :: string
  up_created_at :: string

record course_row =
  crs_id :: string
  crs_total_enrollment :: int
  crs_updated_at :: string

datatype tbl = Activities | UserCourses | UserProgress | Courses

datatype val = Str string | Num nat | Bool bool

type_synonym filters = "(string \<times> val) list"

text \<open>
  A statement sent to the store: the table of \<^verbatim>\<open>.from(...)\<close>, the verb, and the chain of
  \<^verbatim>\<open>.eq(column, value)\<close> filters in the order they are appended.
\<close>

datatype stmt = Select tbl filters | Insert tbl | Update tbl filters

record db =
  activities :: "activity_row list"
  user_courses :: "user_course_row list"
  user_progress :: "user_progress_row list"
  courses :: "course_row list"
  trace :: "stmt list"

record error =
  err_code :: string
  err_message :: string

definition PGRST116 :: error where
  "PGRST116 = \<lparr>err_code = ''PGRST116'',
               err_message = ''JSON object requested, multiple (or no) rows returned''\<rparr>"

definition act_col :: "string \<Rightarrow> activity_row \<Rightarrow> val option" where
  "act_col c r =
     (if c = ''id'' then Some (Str (act_id r))
      else if c = ''course_id'' then Some (Str (act_course_id r))
      else if c = ''status'' then Some (Str (act_status r))
      else None)"

definition uc_col :: "string \<Rightarrow> user_course_row \<Rightarrow> val option" where
  "uc_col c r =
     (if c = ''id'' then Some (Num (uc_id r))
      else if c = ''user_id'' then Some (Str (uc_user_id r))
      else if c = ''course_id'' then Some (Str (uc_course_id r))
      else None)"

definition up_col :: "string \<Rightarrow> user_progress_row \<Rightarrow> val option" where
  "up_col c r =
     (if c = ''id'' then Some (Num (up_id r))
      else if c = ''user_id'' then Some (Str (up_user_id r))
      else if c = ''activity_id'' then Some (Str (up_activity_id r))
      else if c = ''course_id'' then Some (Str (up_course_id r))
      else if c = ''completed'' then Some (Bool (up_completed r))
      else None)"

definition crs_col :: "string \<Rightarrow> course_row \<Rightarrow> val option" where
  "crs_col c r = (if c = ''id'' then Some (Str (crs_id r)) else None)"

definition matches :: "(string \<Rightarrow> 'r \<Rightarrow> val option) \<Rightarrow> filters \<Rightarrow> 'r \<Rightarrow> bool" where
  "matches col fs r = list_all (\<lambda>(c, v). col c r = Some v) fs"

text \<open>
  Every round trip answers with data or with an error. \<open>f\<close> is the fault the environment
  injects into this round trip (\<open>None\<close>: the store answers). \<^verbatim>\<open>.single()\<close> answers with
  the row when exactly one row matches and with the error PGRST116 otherwise.
\<close>

definition select_rows ::
  "error option \<Rightarrow> (string \<Rightarrow> 'r \<Rightarrow> val option) \<Rightarrow> filters \<Rightarrow> 'r list
     \<Rightarrow> 'r list option \<times> error option" where
  "select_rows f col fs rows =
     (case f of
        Some e \<Rightarrow> (None, Some e)
      | None \<Rightarrow> (Some (filter (matches col fs) rows), None))"

definition select_single ::
  "error option \<Rightarrow> (string \<Rightarrow> 'r \<Rightarrow> val option) \<Rightarrow> filters \<Rightarrow> 'r list
     \<Rightarrow> 'r option \<times> error option" where
  "select_single f col fs rows =
     (case f of
        Some e \<Rightarrow> (None, Some e)
      | None \<Rightarrow>
          (case filter (matches col fs) rows of
             [r] \<Rightarrow> (Some r, None)
           | _ \<Rightarrow> (None, Some PGRST116)))"

definition update_rows ::
  "(string \<Rightarrow> 'r \<Rightarrow> val option) \<Rightarrow> filters \<Rightarrow> ('r \<Rightarrow> 'r) \<Rightarrow> 'r list \<Rightarrow> 'r list" where
  "update_rows col fs upd rows = map (\<lambda>r. if matches col fs r then upd r else r) rows"

definition next_id :: "nat list \<Rightarrow> nat" where
  "next_id ids = Suc (foldr max ids 0)"

definition issue :: "stmt \<Rightarrow> db \<Rightarrow> db" where
  "issue q s = s\<lparr>trace := trace s @ [q]\<rparr>"

definition single_activities ::
  "error option \<Rightarrow> filters \<Rightarrow> db \<Rightarrow> (activity_row option \<times> error option) \<times> db" where
  "single_activities f fs s =
     (select_single f act_col fs (activities s), issue (Select Activities fs) s)"

definition select_activities ::
  "error option \<Rightarrow> filters \<Rightarrow> db \<Rightarrow> (activity_row list option \<times> error option) \<times> db" where
  "select_activities f fs s =
     (select_rows f act_col fs (activities s), issue (Select Activities fs) s)"

definition single_courses ::
  "error option \<Rightarrow> filters \<Rightarrow> db \<Rightarrow> (course_row option \<times> error option) \<times> db" where
  "single_courses f fs s =
     (select_single f crs_col fs (courses s), issue (Select Courses fs) s)"

definition update_courses ::
  "error option \<Rightarrow> filters \<Rightarrow> (course_row \<Rightarrow> course_row) \<Rightarrow> db \<Rightarrow> error option \<times> db" where
  "update_courses f fs upd s =
     (let s' = issue (Update Courses fs) s
      in case f of
           Some e \<Rightarrow> (Some e, s')
         | None \<Rightarrow> (None, s'\<lparr>courses := update_rows crs_col fs upd (courses s')\<rparr>))"

definition single_user_courses ::
  "error option \<Rightarrow> filters \<Rightarrow> db \<Rightarrow> (user_course_row option \<times> error option) \<times> db" where
  "single_user_courses f fs s =
     (select_single f uc_col fs (user_courses s), issue (Select UserCourses fs) s)"

definition insert_user_courses ::
  "error option \<Rightarrow> (nat \<Rightarrow> user_course_row) \<Rightarrow> db \<Rightarrow> error option \<times> db" where
  "insert_user_courses f mk s =
     (let s' = issue (Insert UserCourses) s
      in case f of
           Some e \<Rightarrow> (Some e, s')
         | None \<Rightarrow>
             (None, s'\<lparr>user_courses :=
                user_courses s' @ [mk (next_id (map uc_id (user_courses s')))]\<rparr>))"

definition update_user_courses ::
  "error option \<Rightarrow> filters \<Rightarrow> (user_course_row \<Rightarrow> user_course_row) \<Rightarrow> db
     \<Rightarrow> error option \<times> db" where
  "update_user_courses f fs upd s =
     (let s' = issue (Update UserCourses fs) s
      in case f of
           Some e \<Rightarrow> (Some e, s')
         | None \<Rightarrow> (None, s'\<lparr>user_courses := update_rows uc_col fs upd (user_courses s')\<rparr>))"

definition single_user_progress ::
  "error option \<Rightarrow> filters \<Rightarrow> db \<Rightarrow> (user_progress_row option \<times> error option) \<times> db" where
  "single_user_progress f fs s =
     (select_single f up_col fs (user_progress s), issue (Select UserProgress fs) s)"

definition select_user_progress ::
  "error option \<Rightarrow> filters \<Rightarrow> db
     \<Rightarrow> (user_progress_row list option \<times> error option) \<times> db" where
  "select_user_progress f fs s =
     (select_rows f up_col fs (user_progress s), issue (Select UserProgress fs) s)"

text \<open>The two writes to \<^verbatim>\<open>user_progress\<close> end in \<^verbatim>\<open>.select()\<close>: they answer with the rows written.\<close>

definition insert_user_progress ::
  "error option \<Rightarrow> (nat \<Rightarrow> user_progress_row) \<Rightarrow> db
     \<Rightarrow> (user_progress_row list option \<times> error option) \<times> db" where
  "insert_user_progress f mk s =
     (let s' = issue (Insert UserProgress) s
      in case f of
           Some e \<Rightarrow> ((None, Some e), s')
         | None \<Rightarrow>
             (let r = mk (next_id (map up_id (user_progress s')))
              in ((Some [r], None), s'\<lparr>user_progress := user_progress s' @ [r]\<rparr>)))"

definition update_user_progress ::
  "error option \<Rightarrow> filters \<Rightarrow> (user_progress_row \<Rightarrow> user_progress_row) \<Rightarrow> db
     \<Rightarrow> (user_progress_row list option \<times> error option) \<times> db" where
  "update_user_progress f fs upd s =
     (let s' = issue (Update UserProgress fs) s
      in case f of
           Some e \<Rightarrow> ((None, Some e), s')
         | None \<Rightarrow>
             ((Some (map upd (filter (matches up_col fs) (user_progress s'))), None),
              s'\<lparr>user_progress := update_rows up_col fs upd (user_progress s')\<rparr>))"

section \<open>The environment of one request\<close>

text \<open>
  What a call of the server action gets from outside the store: whether creating the client
  raises, the answer of \<^verbatim>\<open>supabase.auth.getUser()\<close>, the fault (if any) of each round trip
  to the store, named by its place in the source, and the clock.
\<close>

datatype site =
    GetActivity | GetUserCourse | InsertUserCourse | GetCourse | UpdateCourse
  | GetProgress | WriteProgress
  | AggActivities | AggCompleted | AggUserCourse | AggWriteUserCourse

record env =
  client_throws :: "string option"
  auth_user :: "string option"
  auth_error :: "error option"
  fault :: "site \<Rightarrow> error option"
  now :: string

text \<open>\<^verbatim>\<open>e?.message || d\<close>: the message unless there is no error or the message is empty.\<close>

definition message_or :: "error option \<Rightarrow> string \<Rightarrow> string" where
  "message_or e d =
     (case e of None \<Rightarrow> d | Some x \<Rightarrow> if err_message x = [] then d else err_message x)"

section \<open>The rows written\<close>

text \<open>
  The object literals of the source. \<open>enrollment_row\<close> is the row both enrollment inserts
  send (the store adds the id), \<open>userCourseData\<close> the columns the aggregator's update sets,
  \<open>progressData\<close> the columns the progress update sets and \<open>progress_row\<close> the row
  \<^verbatim>\<open>{ ...progressData, created_at }\<close> of the progress insert. An omitted \<^verbatim>\<open>answers\<close>
  is \<^verbatim>\<open>undefined\<close> and is left out of the JSON body: an update keeps the column, an
  insert leaves it null.
\<close>

definition enrollment_row ::
  "string \<Rightarrow> string \<Rightarrow> int \<Rightarrow> int \<Rightarrow> string \<Rightarrow> nat \<Rightarrow> user_course_row" where
  "enrollment_row userId courseId p a t i =
     \<lparr>uc_id = i, uc_user_id = userId, uc_course_id = courseId, uc_progress = p, uc_score = a,
      uc_created_at = t, uc_updated_at = t\<rparr>"

definition userCourseData :: "int \<Rightarrow> int \<Rightarrow> string \<Rightarrow> user_course_row \<Rightarrow> user_course_row" where
  "userCourseData p a t x = x\<lparr>uc_progress := p, uc_score := a, uc_updated_at := t\<rparr>"

definition progressData ::
  "string \<Rightarrow> string \<Rightarrow> string \<Rightarrow> int \<Rightarrow> bool \<Rightarrow> string option \<Rightarrow> int \<Rightarrow> string
     \<Rightarrow> user_progress_row \<Rightarrow> user_progress_row" where
  "progressData userId activityId courseId score completed answers time_spent t x =
     x\<lparr>up_user_id := userId, up_activity_id := activityId, up_course_id := courseId,
       up_score := score, up_completed := completed,
       up_answers := (case answers of None \<Rightarrow> up_answers x | Some a \<Rightarrow> Some a),
       up_time_spent := time_spent, up_updated_at := t\<rparr>"

definition progress_row ::
  "string \<Rightarrow> string \<Rightarrow> string \<Rightarrow> int \<Rightarrow> bool \<Rightarrow> string option \<Rightarrow> int \<Rightarrow> string
     \<Rightarrow> nat \<Rightarrow> user_progress_row" where
  "progress_row userId activityId courseId score completed answers time_spent t i =
     \<lparr>up_id = i, up_user_id = userId, up_activity_id = activityId, up_course_id = courseId,
      up_score = score, up_completed = completed, up_answers = answers,
      up_time_spent = time_spent, up_updated_at = t, up_created_at = t\<rparr>"

definition enrollment_count :: "int \<Rightarrow> string \<Rightarrow> course_row \<Rightarrow> course_row" where
  "enrollment_count n t c = c\<lparr>crs_total_enrollment := n, crs_updated_at := t\<rparr>"

section \<open>The Course Aggregator\<close>

text \<open>\<^verbatim>\<open>Math.round((completedCount / totalActivities) * 100)\<close>\<close>

definition progressPercentage :: "nat \<Rightarrow> nat \<Rightarrow> int option" where
  "progressPercentage completedCount totalActivities =
     (case js_div (of_nat completedCount) (of_nat totalActivities) of
        None \<Rightarrow> None
      | Some q \<Rightarrow> Some (Math_round (js_mul q 100)))"

text \<open>\<^verbatim>\<open>completedActivities.reduce((sum, activity) => sum + (activity.score || 0), 0)\<close>\<close>

definition totalScore :: "user_progress_row list \<Rightarrow> rat" where
  "totalScore completedActivities =
     (if length completedActivities > 0
      then foldl (\<lambda>sum a. js_add sum (of_int (up_score a))) 0 completedActivities
      else 0)"

text \<open>\<^verbatim>\<open>completedCount > 0 ? Math.round(totalScore / completedCount) : 0\<close>\<close>

definition averageScore :: "user_progress_row list \<Rightarrow> int option" where
  "averageScore completedActivities =
     (if length completedActivities > 0
      then (case js_div (totalScore completedActivities) (of_nat (length completedActivities)) of
              None \<Rightarrow> None
            | Some q \<Rightarrow> Some (Math_round q))
      else Some 0)"

text \<open>
  Lines 218 to 262: look the enrollment row of (user, course) up and update it (by its id and
  the user id), or insert a row when none is found. Errors are logged and dropped.
\<close>

definition write_user_course ::
  "env \<Rightarrow> string \<Rightarrow> string \<Rightarrow> int \<Rightarrow> int \<Rightarrow> db \<Rightarrow> db" where
  "write_user_course E userId courseId p a s =
     (let ((existingUserCourse, userCourseError), s1) =
            single_user_courses (fault E AggUserCourse)
              [(''user_id'', Str userId), (''course_id'', Str courseId)] s
      in case existingUserCourse of
           Some r \<Rightarrow>
             if uc_id r \<noteq> 0
             then snd (update_user_courses (fault E AggWriteUserCourse)
                    [(''id'', Num (uc_id r)), (''user_id'', Str userId)]
                    (userCourseData p a (now E)) s1)
             else snd (insert_user_courses (fault E AggWriteUserCourse)
                    (enrollment_row userId courseId p a (now E)) s1)
         | None \<Rightarrow>
             snd (insert_user_courses (fault E AggWriteUserCourse)
               (enrollment_row userId courseId p a (now E)) s1))"

text \<open>
  The aggregator returns nothing and swallows every error; its effect is the store it leaves.
  \<open>None\<close> stands for a run in which a division by zero was evaluated.
\<close>

definition updateCourseProgress :: "env \<Rightarrow> string \<Rightarrow> string \<Rightarrow> db \<Rightarrow> db option" where
  "updateCourseProgress E userId courseId s =
     (let ((activitiesData, activitiesError), s1) =
            select_activities (fault E AggActivities)
              [(''course_id'', Str courseId), (''status'', Str ''published'')] s
      in case activitiesData of
           None \<Rightarrow> Some s1
         | Some acts \<Rightarrow>
             if length acts = 0 then Some s1
             else
               (let ((completedData, completedError), s2) =
                      select_user_progress (fault E AggCompleted)
                        [(''user_id'', Str userId), (''course_id'', Str courseId),
                         (''completed'', Bool True)] s1
                in case completedData of
                     None \<Rightarrow> Some s2
                   | Some completedActivities \<Rightarrow>
                       (case progressPercentage (length completedActivities) (length acts) of
                          None \<Rightarrow> None
                        | Some p \<Rightarrow>
                            (case averageScore completedActivities of
                               None \<Rightarrow> None
                             | Some a \<Rightarrow> Some (write_user_course E userId courseId p a s2)))))"

section \<open>The Progress Recorder\<close>

text \<open>
  Lines 46 to 94 of the action: look the enrollment up, and when none is found insert one
  with progress 0 and score 0, then (only after a successful insert) read the course's
  \<^verbatim>\<open>total_enrollment\<close> and write back
  \<^verbatim>\<open>(course?.total_enrollment || 0) + 1\<close>, a binary64 sum. No error of this block stops
  the save.
\<close>

definition autoEnroll :: "env \<Rightarrow> string \<Rightarrow> string \<Rightarrow> db \<Rightarrow> db" where
  "autoEnroll E userId courseId s =
     (let ((userCourse, userCourseError), s1) =
            single_user_courses (fault E GetUserCourse)
              [(''user_id'', Str userId), (''course_id'', Str courseId)] s
      in case userCourse of
           Some r \<Rightarrow> s1
         | None \<Rightarrow>
             (let (enrollError, s2) =
                    insert_user_courses (fault E InsertUserCourse)
                      (enrollment_row userId courseId 0 0 (now E)) s1
              in case enrollError of
                   Some e \<Rightarrow> s2
                 | None \<Rightarrow>
                     (let ((course, courseError), s3) =
                            single_courses (fault E GetCourse) [(''id'', Str courseId)] s2;
                          current = (case course of
                                       None \<Rightarrow> 0
                                     | Some c \<Rightarrow> js_number (crs_total_enrollment c))
                      in snd (update_courses (fault E UpdateCourse) [(''id'', Str courseId)]
                                (enrollment_count (stored_int (js_add current 1)) (now E)) s3))))"

text \<open>\<^verbatim>\<open>timeSpent || existingProgress?.time_spent || 0\<close>: an omitted and a zero \<^verbatim>\<open>timeSpent\<close>
  are both falsy.\<close>

definition time_spent_of :: "int option \<Rightarrow> user_progress_row option \<Rightarrow> int" where
  "time_spent_of timeSpent existingProgress =
     (case timeSpent of
        Some t \<Rightarrow> if t \<noteq> 0 then t else (case existingProgress of None \<Rightarrow> 0 | Some r \<Rightarrow> up_time_spent r)
      | None \<Rightarrow> (case existingProgress of None \<Rightarrow> 0 | Some r \<Rightarrow> up_time_spent r))"

text \<open>
  Lines 96 to 140: look the progress row of (user, activity) up, build the payload, and
  update the row found (by its id and the user id) or insert a new row.
\<close>

definition writeProgress ::
  "env \<Rightarrow> string \<Rightarrow> string \<Rightarrow> string \<Rightarrow> int \<Rightarrow> bool \<Rightarrow> string option \<Rightarrow> int option \<Rightarrow> db
     \<Rightarrow> (user_progress_row list option \<times> error option) \<times> db" where
  "writeProgress E userId activityId courseId score completed answers timeSpent s =
     (let ((existingProgress, progressError), s1) =
            single_user_progress (fault E GetProgress)
              [(''user_id'', Str userId), (''activity_id'', Str activityId)] s;
          t = time_spent_of timeSpent existingProgress
      in case existingProgress of
           Some r \<Rightarrow>
             if up_id r \<noteq> 0
             then update_user_progress (fault E WriteProgress)
                    [(''id'', Num (up_id r)), (''user_id'', Str userId)]
                    (progressData userId activityId courseId score completed answers t (now E)) s1
             else insert_user_progress (fault E WriteProgress)
                    (progress_row userId activityId courseId score completed answers t (now E)) s1
         | None \<Rightarrow>
             insert_user_progress (fault E WriteProgress)
               (progress_row userId activityId courseId score completed answers t (now E)) s1)"

datatype save_result = Failure string | Success "user_progress_row list"

text \<open>
  The action returns \<^verbatim>\<open>{ success: false, error }\<close> (\<open>Failure\<close>) or
  \<^verbatim>\<open>{ success: true, data }\<close> (\<open>Success\<close>); an exception is caught and returned as a
  failure too. The four \<^verbatim>\<open>revalidatePath\<close> calls do not touch the store. \<open>None\<close> is
  passed on from the aggregator.
\<close>

definition saveActivityProgress ::
  "env \<Rightarrow> string \<Rightarrow> int \<Rightarrow> bool \<Rightarrow> string option \<Rightarrow> int option \<Rightarrow> db
     \<Rightarrow> (save_result \<times> db) option" where
  "saveActivityProgress E activityId score completed answers timeSpent s =
     (case client_throws E of
        Some m \<Rightarrow> Some (Failure m, s)
      | None \<Rightarrow>
          (case (if auth_error E \<noteq> None then None else auth_user E) of
             None \<Rightarrow> Some (Failure (message_or (auth_error E) ''User not authenticated''), s)
           | Some userId \<Rightarrow>
               (let ((act, activityError), s1) =
                      single_activities (fault E GetActivity) [(''id'', Str activityId)] s
                in case act of
                     None \<Rightarrow> Some (Failure (message_or activityError ''Activity not found''), s1)
                   | Some activity \<Rightarrow>
                       (let s2 = autoEnroll E userId (act_course_id activity) s1;
                            ((data, err), s3) =
                              writeProgress E userId activityId (act_course_id activity)
                                score completed answers timeSpent s2
                        in case err of
                             Some e \<Rightarrow> Some (Failure (err_message e), s3)
                           | None \<Rightarrow>
                               (case updateCourseProgress E userId (act_course_id activity) s3 of
                                  None \<Rightarrow> None
                                | Some s4 \<Rightarrow>
                                    Some (Success (case data of None \<Rightarrow> [] | Some rows \<Rightarrow> rows),
                                          s4))))))"

section \<open>Vocabulary of the properties\<close>

text \<open>The rows of a table that belong to a user, a course or an activity.\<close>

definition published_of :: "db \<Rightarrow> string \<Rightarrow> activity_row list" where
  "published_of s c =
     filter (\<lambda>r. act_course_id r = c \<and> act_status r = ''published'') (activities s)"

definition completed_of :: "db \<Rightarrow> string \<Rightarrow> string \<Rightarrow> user_progress_row list" where
  "completed_of s u c =
     filter (\<lambda>r. up_user_id r = u \<and> up_course_id r = c \<and> up_completed r) (user_progress s)"

definition progress_of :: "db \<Rightarrow> string \<Rightarrow> string \<Rightarrow> user_progress_row list" where
  "progress_of s u a =
     filter (\<lambda>r. up_user_id r = u \<and> up_activity_id r = a) (user_progress s)"

definition enrollments_of :: "db \<Rightarrow> string \<Rightarrow> string \<Rightarrow> user_course_row list" where
  "enrollments_of s u c =
     filter (\<lambda>r. uc_user_id r = u \<and> uc_course_id r = c) (user_courses s)"

definition activity_of :: "db \<Rightarrow> string \<Rightarrow> activity_row list" where
  "activity_of s a = filter (\<lambda>r. act_id r = a) (activities s)"

definition course_of :: "db \<Rightarrow> string \<Rightarrow> course_row list" where
  "course_of s c = filter (\<lambda>r. crs_id r = c) (courses s)"

text \<open>
  What the lookup of the existing progress row answers: the row, when the round trip does
  not fault and exactly one row of the table is the pair's.
\<close>

definition found_progress :: "env \<Rightarrow> db \<Rightarrow> string \<Rightarrow> string \<Rightarrow> user_progress_row option" where
  "found_progress E s u a =
     (case fault E GetProgress of
        Some e \<Rightarrow> None
      | None \<Rightarrow> (case progress_of s u a of [r] \<Rightarrow> Some r | _ \<Rightarrow> None))"

text \<open>
  The keys of the progress table: ids are distinct and not zero (a primary key the store
  assigns), and no two rows share (user, activity).
\<close>

definition progress_keys_ok :: "user_progress_row list \<Rightarrow> bool" where
  "progress_keys_ok rows \<longleftrightarrow>
     distinct (map up_id rows) \<and> 0 \<notin> set (map up_id rows) \<and>
     distinct (map (\<lambda>r. (up_user_id r, up_activity_id r)) rows)"

text \<open>The two counts of the aggregator, read off the store.\<close>

definition totalActivities :: "db \<Rightarrow> string \<Rightarrow> nat" where
  "totalActivities s c = length (published_of s c)"

definition completedCount :: "db \<Rightarrow> string \<Rightarrow> string \<Rightarrow> nat" where
  "completedCount s u c = length (completed_of s u c)"

text \<open>An enrollment row whose progress and score are both between 0 and 100.\<close>

definition enrollment_in_range :: "user_course_row \<Rightarrow> bool" where
  "enrollment_in_range r \<longleftrightarrow>
     0 \<le> uc_progress r \<and> uc_progress r \<le> 100 \<and> 0 \<le> uc_score r \<and> uc_score r \<le> 100"

text \<open>
  What the aggregator's lookup of the enrollment row answers, in the same way.
\<close>

definition found_enrollment :: "env \<Rightarrow> db \<Rightarrow> string \<Rightarrow> string \<Rightarrow> user_course_row option" where
  "found_enrollment E s u c =
     (case fault E AggUserCourse of
        Some e \<Rightarrow> None
      | None \<Rightarrow> (case enrollments_of s u c of [r] \<Rightarrow> Some r | _ \<Rightarrow> None))"

text \<open>
  The scope of a statement for the acting user \<open>u\<close>: an update of \<^verbatim>\<open>user_progress\<close> or of
  \<^verbatim>\<open>user_courses\<close> carries the filter \<^verbatim>\<open>.eq("user_id", u)\<close>, an update of
  \<^verbatim>\<open>courses\<close> is filtered by the course id alone, and \<^verbatim>\<open>activities\<close> is never
  updated. \<open>carries_user_filter\<close> asks the filter of every update, whatever its table.
\<close>

fun update_scope :: "string \<Rightarrow> stmt \<Rightarrow> bool" where
  "update_scope u (Update UserProgress fs) = ((''user_id'', Str u) \<in> set fs)"
| "update_scope u (Update UserCourses fs) = ((''user_id'', Str u) \<in> set fs)"
| "update_scope u (Update Courses fs) = (map fst fs = [''id''])"
| "update_scope u (Update Activities fs) = False"
| "update_scope u (Select tb fs) = True"
| "update_scope u (Insert tb) = True"

fun carries_user_filter :: "string \<Rightarrow> stmt \<Rightarrow> bool" where
  "carries_user_filter u (Update tb fs) = ((''user_id'', Str u) \<in> set fs)"
| "carries_user_filter u (Select tb fs) = True"
| "carries_user_filter u (Insert tb) = True"

fun is_write :: "stmt \<Rightarrow> bool" where
  "is_write (Select tb fs) = False"
| "is_write (Insert tb) = True"
| "is_write (Update tb fs) = True"

section \<open>Sequences of calls and the statements of one call\<close>

text \<open>
  A call of the action with its environment, and a run of calls one after the other on the
  same store (requests are handled one at a time here).
\<close>

record call =
  call_env :: env
  call_activityId :: string
  call_score :: int
  call_completed :: bool
  call_answers :: "string option"
  call_timeSpent :: "int option"

fun run_calls :: "call list \<Rightarrow> db \<Rightarrow> (save_result list \<times> db) option" where
  "run_calls [] s = Some ([], s)"
| "run_calls (c # cs) s =
     (case saveActivityProgress (call_env c) (call_activityId c) (call_score c)
             (call_completed c) (call_answers c) (call_timeSpent c) s of
        None \<Rightarrow> None
      | Some (r, s1) \<Rightarrow>
          (case run_calls cs s1 of
             None \<Rightarrow> None
           | Some (rs, s2) \<Rightarrow> Some (r # rs, s2)))"

fun is_success :: "save_result \<Rightarrow> bool" where
  "is_success (Success rows) = True"
| "is_success (Failure m) = False"

fun succeeded :: "(save_result \<times> db) option \<Rightarrow> bool" where
  "succeeded (Some (Success rows, s)) = True"
| "succeeded x = False"

text \<open>The statements a step added to the trace, and the writes to \<^verbatim>\<open>user_progress\<close> among them.\<close>

definition new_stmts :: "db \<Rightarrow> db \<Rightarrow> stmt list" where
  "new_stmts s s' = drop (length (trace s)) (trace s')"

fun is_progress_write :: "stmt \<Rightarrow> bool" where
  "is_progress_write (Insert UserProgress) = True"
| "is_progress_write (Update UserProgress fs) = True"
| "is_progress_write q = False"

definition progress_count :: "string \<Rightarrow> string \<Rightarrow> db \<Rightarrow> nat" where
  "progress_count u a s = length (progress_of s u a)"

section \<open>A concrete store and environment\<close>

text \<open>
  A course \<open>c1\<close> with four published activities and a draft, a learner \<open>u1\<close> whose session
  is valid, and no fault in any round trip. \<open>db_three_done\<close> is the store after the learner
  completed three of the published activities with the scores 80, 90 and 100.
\<close>

definition env_ok :: env where
  "env_ok = \<lparr>client_throws = None, auth_user = Some ''u1'', auth_error = None,
             fault = (\<lambda>x. None), now = ''2025-01-01T00:00:00.000Z''\<rparr>"

definition db_empty :: db where
  "db_empty =
     \<lparr>activities =
        [\<lparr>act_id = ''a1'', act_course_id = ''c1'', act_status = ''published''\<rparr>,
         \<lparr>act_id = ''a2'', act_course_id = ''c1'', act_status = ''published''\<rparr>,
         \<lparr>act_id = ''a3'', act_course_id = ''c1'', act_status = ''published''\<rparr>,
         \<lparr>act_id = ''a4'', act_course_id = ''c1'', act_status = ''published''\<rparr>,
         \<lparr>act_id = ''a5'', act_course_id = ''c1'', act_status = ''draft''\<rparr>],
      user_courses = [],
      user_progress = [],
      courses = [\<lparr>crs_id = ''c1'', crs_total_enrollment = 7, crs_updated_at = ''2024-12-01''\<rparr>],
      trace = []\<rparr>"

definition db_three_done :: db where
  "db_three_done =
     db_empty
       \<lparr>user_courses :=
          [enrollment_row ''u1'' ''c1'' 75 90 ''2024-12-24'' 1],
        user_progress :=
          [progress_row ''u1'' ''a1'' ''c1'' 80 True None 30 ''2024-12-24'' 1,
           progress_row ''u1'' ''a2'' ''c1'' 90 True None 40 ''2024-12-24'' 2,
           progress_row ''u1'' ''a3'' ''c1'' 100 True None 50 ''2024-12-25'' 3],
        courses := [\<lparr>crs_id = ''c1'', crs_total_enrollment = 8, crs_updated_at = ''2024-12-24''\<rparr>]\<rparr>"

text \<open>
  \<open>db_draft_done\<close>: the learner completed the published activity \<open>a1\<close> and the draft
  \<open>a5\<close> (the activity page serves an activity whatever its status).
\<close>

definition db_draft_done :: db where
  "db_draft_done =
     db_empty
       \<lparr>user_courses :=
          [enrollment_row ''u1'' ''c1'' 25 80 ''2024-12-24'' 1],
        user_progress :=
          [progress_row ''u1'' ''a1'' ''c1'' 80 True None 30 ''2024-12-24'' 1,
           progress_row ''u1'' ''a5'' ''c1'' 90 True None 40 ''2024-12-24'' 2],
        courses := [\<lparr>crs_id = ''c1'', crs_total_enrollment = 8, crs_updated_at = ''2024-12-24''\<rparr>]\<rparr>"

definition env_anonymous :: env where
  "env_anonymous = env_ok\<lparr>auth_user := None\<rparr>"

text \<open>An environment in which the lookup of the existing progress row faults.\<close>

definition env_lookup_fault :: env where
  "env_lookup_fault =
     env_ok\<lparr>fault := (\<lambda>x. if x = GetProgress
                          then Some \<lparr>err_code = ''57014'', err_message = ''statement timeout''\<rparr>
                          else None)\<rparr>"

text \<open>An environment in which the enrollment insert of the recorder faults.\<close>

definition env_enroll_fault :: env where
  "env_enroll_fault =
     env_ok\<lparr>fault := (\<lambda>x. if x = InsertUserCourse
                          then Some \<lparr>err_code = ''57014'', err_message = ''statement timeout''\<rparr>
                          else None)\<rparr>"

text \<open>
  No session, and the auth provider says so with an error of its own; a valid session whose
  progress write faults; and a valid session whose activity lookup faults.
\<close>

definition env_session_missing :: env where
  "env_session_missing =
     env_ok\<lparr>auth_user := None,
            auth_error := Some \<lparr>err_code = ''400'', err_message = ''Auth session missing!''\<rparr>\<rparr>"

definition env_write_fault :: env where
  "env_write_fault =
     env_ok\<lparr>fault := (\<lambda>x. if x = WriteProgress
                          then Some \<lparr>err_code = ''PGRST301'', err_message = ''Auth session missing!''\<rparr>
                          else None)\<rparr>"

definition env_activity_fault :: env where
  "env_activity_fault =
     env_ok\<lparr>fault := (\<lambda>x. if x = GetActivity
                          then Some \<lparr>err_code = ''57014'', err_message = ''statement timeout''\<rparr>
                          else None)\<rparr>"

text \<open>\<open>db_counter_full\<close>: the enrollment counter of the course stands at \<open>2 ^ 53\<close>.\<close>

definition db_counter_full :: db where
  "db_counter_full =
     db_empty\<lparr>courses :=
       [\<lparr>crs_id = ''c1'', crs_total_enrollment = 9007199254740992,
         crs_updated_at = ''2024-12-01''\<rparr>]\<rparr>"

definition call_a1 :: "env \<Rightarrow> call" where
  "call_a1 E = \<lparr>call_env = E, call_activityId = ''a1'', call_score = 80, call_completed = True,
                call_answers = None, call_timeSpent = Some 12\<rparr>"

text \<open>\<open>db_all_done\<close>: the learner completed the four published activities.\<close>

definition db_all_done :: db where
  "db_all_done =
     db_empty
       \<lparr>user_courses :=
          [enrollment_row ''u1'' ''c1'' 100 90 ''2024-12-24'' 1],
        user_progress :=
          [progress_row ''u1'' ''a1'' ''c1'' 80 True None 30 ''2024-12-24'' 1,
           progress_row ''u1'' ''a2'' ''c1'' 90 True None 40 ''2024-12-24'' 2,
           progress_row ''u1'' ''a3'' ''c1'' 100 True None 50 ''2024-12-25'' 3,
           progress_row ''u1'' ''a4'' ''c1'' 90 True None 50 ''2024-12-26'' 4],
        courses := [\<lparr>crs_id = ''c1'', crs_total_enrollment = 8, crs_updated_at = ''2024-12-24''\<rparr>]\<rparr>"

section \<open>The specification's formulas\<close>

text \<open>
  The percentage as the specification words it: \<open>round(100 \<times> completedCount /
  totalPublishedActivities)\<close> in exact arithmetic, where \<open>completedCount\<close> counts the
  published activities of the course that the user has completed.
\<close>

definition spec_completedCount :: "db \<Rightarrow> string \<Rightarrow> string \<Rightarrow> nat" where
  "spec_completedCount s u c =
     length (filter
       (\<lambda>a. list_ex (\<lambda>r. up_user_id r = u \<and> up_activity_id r = act_id a \<and> up_completed r)
               (user_progress s))
       (published_of s c))"

definition spec_progressPercentage :: "db \<Rightarrow> string \<Rightarrow> string \<Rightarrow> int" where
  "spec_progressPercentage s u c =
     \<lfloor>100 * rat_of_nat (spec_completedCount s u c) / rat_of_nat (length (published_of s c)) + 1 / 2\<rfloor>"

section \<open>Rounding to binary64 is monotone and exact on integers\<close>

lemma round_even_of_int: "round_even (of_int n) = n"
  by (simp add: round_even_def)

lemma round_even_ge: "\<lfloor>x\<rfloor> \<le> round_even x"
  by (simp add: round_even_def Let_def)

lemma round_even_le: "round_even x \<le> \<lfloor>x\<rfloor> + 1"
  by (simp add: round_even_def Let_def)

lemma round_even_mono: "x \<le> y \<Longrightarrow> round_even x \<le> round_even y"
proof -
  assume xy: "x \<le> y"
  have fm: "\<lfloor>x\<rfloor> \<le> \<lfloor>y\<rfloor>" using xy by (rule floor_mono)
  show ?thesis
  proof (cases "\<lfloor>x\<rfloor> = \<lfloor>y\<rfloor>")
    case True
    then show ?thesis using xy by (auto simp: round_even_def Let_def)
  next
    case False
    then have "\<lfloor>x\<rfloor> + 1 \<le> \<lfloor>y\<rfloor>" using fm by linarith
    then show ?thesis using round_even_le [of x] round_even_ge [of y] by linarith
  qed
qed

lemma two_powi_pos: "(0::rat) < 2 powi e"
  by simp

lemma two_powi_mono: "a \<le> b \<Longrightarrow> (2::rat) powi a \<le> 2 powi b"
  by (rule power_int_increasing) simp_all

lemma two_powi_strict: "a < b \<Longrightarrow> (2::rat) powi a < 2 powi b"
  by (rule power_int_strict_increasing) simp_all

lemma two_powi_Suc: "(2::rat) powi (e + 1) = 2 * 2 powi e"
  by (simp add: power_int_add)

lemma of_int_pow2_powi: "0 \<le> a \<Longrightarrow> (2::rat) ^ nat a = 2 powi a"
  by (simp add: power_int_def)

lemma exponent_bounds:
  assumes "0 < x"
  shows "2 powi exponent x \<le> x \<and> x < 2 powi (exponent x + 1)"
proof -
  obtain p q where pq: "quotient_of x = (p, q)" by force
  have q0: "0 < q" using quotient_of_denom_pos [OF pq] .
  have x_eq: "x = of_int p / of_int q" using quotient_of_div [OF pq] .
  have p0: "0 < p" using assms q0 by (simp add: x_eq zero_less_divide_iff)
  define a where "a = bitlen p"
  define b where "b = bitlen q"
  have a1: "1 \<le> a" and b1: "1 \<le> b"
    using p0 q0 bitlen_eq_zero_iff [of p] bitlen_eq_zero_iff [of q] bitlen_nonneg [of p] bitlen_nonneg [of q]
    unfolding a_def b_def by linarith+
  have pl: "(2::rat) powi (a - 1) \<le> of_int p" and pu: "of_int p < (2::rat) powi a"
  proof -
    from bitlen_bounds [OF p0] have "2 ^ nat (a - 1) \<le> p" "p < 2 ^ nat a" by (simp_all add: a_def)
    then have "(of_int (2 ^ nat (a - 1)) :: rat) \<le> of_int p" "(of_int p :: rat) < of_int (2 ^ nat a)"
      by (simp_all only: of_int_le_iff of_int_less_iff)
    then show "(2::rat) powi (a - 1) \<le> of_int p" "of_int p < (2::rat) powi a"
      using a1 by (simp_all add: power_int_def)
  qed
  have ql: "(2::rat) powi (b - 1) \<le> of_int q" and qu: "of_int q < (2::rat) powi b"
  proof -
    from bitlen_bounds [OF q0] have "2 ^ nat (b - 1) \<le> q" "q < 2 ^ nat b" by (simp_all add: b_def)
    then have "(of_int (2 ^ nat (b - 1)) :: rat) \<le> of_int q" "(of_int q :: rat) < of_int (2 ^ nat b)"
      by (simp_all only: of_int_le_iff of_int_less_iff)
    then show "(2::rat) powi (b - 1) \<le> of_int q" "of_int q < (2::rat) powi b"
      using b1 by (simp_all add: power_int_def)
  qed
  have qpos: "(0::rat) < of_int q" using q0 by simp
  have up: "x < 2 powi (a - b + 1)"
  proof -
    have "of_int p < (2::rat) powi (a - b + 1) * 2 powi (b - 1)"
      using pu by (simp add: power_int_add [symmetric])
    also have "\<dots> \<le> 2 powi (a - b + 1) * of_int q"
      using ql by (simp add: mult_left_mono)
    finally show ?thesis using qpos by (simp add: x_eq pos_divide_less_eq)
  qed
  have lo: "2 powi (a - b - 1) < x"
  proof -
    have "(2::rat) powi (a - b - 1) * of_int q < 2 powi (a - b - 1) * 2 powi b"
      using qu by (simp add: mult_strict_left_mono)
    also have "\<dots> = 2 powi (a - 1)" by (simp add: power_int_add [symmetric])
    also have "\<dots> \<le> of_int p" by (rule pl)
    finally show ?thesis using qpos by (simp add: x_eq pos_less_divide_eq)
  qed
  have ex: "exponent x = (if 2 powi (a - b) \<le> x then a - b else a - b - 1)"
    by (simp add: exponent_def pq a_def b_def)
  show ?thesis
  proof (cases "2 powi (a - b) \<le> x")
    case True
    then show ?thesis using up by (simp add: ex)
  next
    case False
    then show ?thesis using lo by (simp add: ex)
  qed
qed

lemma exponent_unique:
  assumes "0 < x" and "2 powi e \<le> x" and "x < 2 powi (e + 1)"
  shows "exponent x = e"
proof -
  from exponent_bounds [OF assms(1)]
  have b: "2 powi exponent x \<le> x" "x < 2 powi (exponent x + 1)" by simp_all
  have "\<not> exponent x < e"
  proof
    assume "exponent x < e"
    then have "exponent x + 1 \<le> e" by simp
    then have "(2::rat) powi (exponent x + 1) \<le> 2 powi e" by (rule two_powi_mono)
    with b(2) assms(2) show False by simp
  qed
  moreover have "\<not> e < exponent x"
  proof
    assume "e < exponent x"
    then have "e + 1 \<le> exponent x" by simp
    then have "(2::rat) powi (e + 1) \<le> 2 powi exponent x" by (rule two_powi_mono)
    with b(1) assms(3) show False by simp
  qed
  ultimately show ?thesis by simp
qed

lemma exponent_mono:
  assumes "0 < x" and "x \<le> y"
  shows "exponent x \<le> exponent y"
proof (rule ccontr)
  assume "\<not> exponent x \<le> exponent y"
  then have "exponent y + 1 \<le> exponent x" by simp
  then have "(2::rat) powi (exponent y + 1) \<le> 2 powi exponent x" by (rule two_powi_mono)
  moreover have "0 < y" using assms by simp
  ultimately show False
    using exponent_bounds [OF assms(1)] exponent_bounds [OF \<open>0 < y\<close>] assms(2) by simp
qed


lemma fl_pos:
  assumes "0 < x"
  shows "fl x = of_int (round_even (x / 2 powi (exponent x - 52))) * 2 powi (exponent x - 52)"
  using assms by (simp add: fl_def Let_def)

lemma fl_zero: "fl 0 = 0"
  by (simp add: fl_def)

lemma fl_minus: "fl (- x) = - fl x"
  by (simp add: fl_def Let_def sgn_minus)

lemma powi_split52: "(2::rat) powi e = 2 ^ 52 * 2 powi (e - 52)"
proof -
  have "(2::rat) powi (52 + (e - 52)) = 2 powi 52 * 2 powi (e - 52)"
    by (rule power_int_add) simp
  moreover have "(2::rat) powi 52 = 2 ^ 52" by simp
  ultimately show ?thesis by simp
qed

lemma powi_split53: "(2::rat) powi (e + 1) = 2 ^ 53 * 2 powi (e - 52)"
proof -
  have "(2::rat) powi (53 + (e - 52)) = 2 powi 53 * 2 powi (e - 52)"
    by (rule power_int_add) simp
  moreover have "(2::rat) powi 53 = 2 ^ 53" by simp
  moreover have "53 + (e - 52) = e + 1" by simp
  ultimately show ?thesis by simp
qed

lemma scaled_bounds:
  assumes "0 < x"
  shows "2 ^ 52 \<le> x / 2 powi (exponent x - 52) \<and> x / 2 powi (exponent x - 52) \<le> 2 ^ 53"
proof -
  from exponent_bounds [OF assms]
  have b: "2 powi exponent x \<le> x" "x < 2 powi (exponent x + 1)" by simp_all
  have u: "(0::rat) < 2 powi (exponent x - 52)" by simp
  have l: "(2::rat) ^ 52 * 2 powi (exponent x - 52) \<le> x"
    using b(1) by (simp only: powi_split52 [symmetric])
  have r: "x \<le> (2::rat) ^ 53 * 2 powi (exponent x - 52)"
    using b(2) by (simp only: powi_split53 [symmetric])
  show ?thesis using l r u by (simp only: pos_le_divide_eq pos_divide_le_eq)
qed

lemma fl_pos_bounds:
  assumes "0 < x"
  shows "2 powi exponent x \<le> fl x \<and> fl x \<le> 2 powi (exponent x + 1)"
proof -
  let ?u = "(2::rat) powi (exponent x - 52)"
  let ?m = "round_even (x / ?u)"
  from scaled_bounds [OF assms] have s: "2 ^ 52 \<le> x / ?u" "x / ?u \<le> 2 ^ 53" by simp_all
  have "round_even (of_int (2 ^ 52)) \<le> ?m"
    using s(1) by (intro round_even_mono) simp
  then have ml: "2 ^ 52 \<le> ?m" by (simp only: round_even_of_int)
  have "?m \<le> round_even (of_int (2 ^ 53))"
    using s(2) by (intro round_even_mono) simp
  then have mu: "?m \<le> 2 ^ 53" by (simp only: round_even_of_int)
  have u: "0 < ?u" by simp
  have f: "fl x = of_int ?m * ?u" by (rule fl_pos [OF assms])
  have "(of_int (2 ^ 52) :: rat) \<le> of_int ?m" using ml by (simp only: of_int_le_iff)
  then have "of_int (2 ^ 52) * ?u \<le> of_int ?m * ?u" using u by (simp only: mult_right_mono less_imp_le)
  moreover have "(of_int (2 ^ 52) :: rat) = 2 ^ 52" by simp
  ultimately have l: "2 powi exponent x \<le> fl x"
    by (simp only: f powi_split52 [of "exponent x"])
  have "(of_int ?m :: rat) \<le> of_int (2 ^ 53)" using mu by (simp only: of_int_le_iff)
  then have "of_int ?m * ?u \<le> of_int (2 ^ 53) * ?u" using u by (simp only: mult_right_mono less_imp_le)
  moreover have "(of_int (2 ^ 53) :: rat) = 2 ^ 53" by simp
  ultimately have r: "fl x \<le> 2 powi (exponent x + 1)"
    by (simp only: f powi_split53 [of "exponent x"])
  show ?thesis using l r by simp
qed

lemma fl_mono_pos:
  assumes "0 < x" and "x \<le> y"
  shows "fl x \<le> fl y"
proof -
  have y0: "0 < y" using assms by simp
  from exponent_mono [OF assms] have e: "exponent x \<le> exponent y" .
  show ?thesis
  proof (cases "exponent x = exponent y")
    case True
    let ?u = "(2::rat) powi (exponent y - 52)"
    have u: "0 < ?u" by simp
    have "x / ?u \<le> y / ?u" using assms(2) u by (simp add: divide_right_mono)
    then have "round_even (x / ?u) \<le> round_even (y / ?u)" by (rule round_even_mono)
    then have "(of_int (round_even (x / ?u)) :: rat) \<le> of_int (round_even (y / ?u))"
      by (simp only: of_int_le_iff)
    then have "of_int (round_even (x / ?u)) * ?u \<le> of_int (round_even (y / ?u)) * ?u"
      using u by (simp add: mult_right_mono)
    then show ?thesis by (simp add: fl_pos [OF assms(1)] fl_pos [OF y0] True)
  next
    case False
    then have "exponent x + 1 \<le> exponent y" using e by simp
    then have "(2::rat) powi (exponent x + 1) \<le> 2 powi exponent y" by (rule two_powi_mono)
    then show ?thesis
      using fl_pos_bounds [OF assms(1)] fl_pos_bounds [OF y0] by linarith
  qed
qed

lemma fl_nonneg: "0 \<le> x \<Longrightarrow> 0 \<le> fl x"
proof -
  assume "0 \<le> x"
  then consider "x = 0" | "0 < x" by fastforce
  then show ?thesis
  proof cases
    case 1
    then show ?thesis by (simp add: fl_zero)
  next
    case 2
    have "(0::rat) < 2 powi exponent x" by simp
    then show ?thesis using fl_pos_bounds [OF 2] by linarith
  qed
qed

lemma fl_mono:
  assumes "x \<le> y"
  shows "fl x \<le> fl y"
proof -
  consider "0 < x" | "x \<le> 0" "0 \<le> y" | "y < 0" by linarith
  then show ?thesis
  proof cases
    case 1
    then show ?thesis using assms by (rule fl_mono_pos)
  next
    case 2
    have "0 \<le> fl (- x)" using 2(1) by (intro fl_nonneg) simp
    then have "fl x \<le> 0" by (simp add: fl_minus)
    moreover have "0 \<le> fl y" using 2(2) by (rule fl_nonneg)
    ultimately show ?thesis by simp
  next
    case 3
    have "fl (- y) \<le> fl (- x)" using 3 assms by (intro fl_mono_pos) simp_all
    then show ?thesis by (simp add: fl_minus)
  qed
qed

lemma round_even_int_mult: "round_even (of_int n * of_int k) = n * k"
  using round_even_of_int [of "n * k"] by simp

lemma fl_two_53: "fl (2 ^ 53) = 2 ^ 53"
  by code_simp

lemma fl_of_nat:
  assumes "n \<le> 2 ^ 53"
  shows "fl (of_nat n) = of_nat n"
proof (cases "n = 0")
  case True
  then show ?thesis by (simp add: fl_zero)
next
  case False
  let ?x = "of_nat n :: rat"
  have x0: "0 < ?x" using False by simp
  define d where "d = 52 - exponent ?x"
  have "?x \<le> of_nat (2 ^ 53)" using assms by (simp only: of_nat_le_iff)
  then have xu: "?x \<le> 2 powi 53" by simp
  have "\<not> 53 < exponent ?x"
  proof
    assume "53 < exponent ?x"
    then have "(2::rat) powi 53 < 2 powi exponent ?x" by (rule two_powi_strict)
    then show False using exponent_bounds [OF x0] xu by simp
  qed
  then have d: "- 1 \<le> d" by (simp add: d_def)
  have e: "exponent ?x - 52 = - d" by (simp add: d_def)
  show ?thesis
  proof (cases "0 \<le> d")
    case True
    have "(2::rat) powi (- d) = 1 / 2 ^ nat d" using True by (simp add: power_int_def field_simps)
    then have u: "(2::rat) powi (exponent ?x - 52) = 1 / of_int (2 ^ nat d)" by (simp add: e)
    have "?x / (1 / of_int (2 ^ nat d)) = of_int (int n * 2 ^ nat d)" by simp
    then have "round_even (?x / (1 / of_int (2 ^ nat d))) = int n * 2 ^ nat d"
      by (simp only: round_even_of_int)
    then show ?thesis by (simp add: fl_pos [OF x0] u)
  next
    case False
    then have d1: "d = - 1" using d by simp
    then have ex: "exponent ?x = 53" by (simp add: d_def)
    have "(2::rat) powi 53 \<le> ?x" using exponent_bounds [OF x0] by (simp add: ex)
    then have "?x = 2 ^ 53" using xu by simp
    then show ?thesis by (simp only: fl_two_53)
  qed
qed

lemma fl_numeral_100: "fl 100 = 100"
  using fl_of_nat [of 100] by simp

lemma fl_one: "fl 1 = 1"
  using fl_of_nat [of 1] by simp

subsection \<open>Scaling, grid points and exact quotients\<close>


lemma two_powi_add: "(2::rat) powi (a + b) = 2 powi a * 2 powi b"
  by (rule power_int_add) simp

lemma exponent_scale:
  assumes "0 < x"
  shows "exponent (x * 2 powi j) = exponent x + j"
proof (rule exponent_unique)
  from exponent_bounds [OF assms]
  have b: "2 powi exponent x \<le> x" "x < 2 powi (exponent x + 1)" by simp_all
  have p: "(0::rat) < 2 powi j" by simp
  show "0 < x * 2 powi j" using assms p by simp
  show "2 powi (exponent x + j) \<le> x * 2 powi j"
    using b(1) p by (simp only: two_powi_add mult_right_mono less_imp_le)
  have "x * 2 powi j < 2 powi (exponent x + 1) * 2 powi j"
    using b(2) p by (simp only: mult_strict_right_mono)
  also have "\<dots> = 2 powi (exponent x + j + 1)"
    by (simp only: two_powi_add [symmetric]) (simp add: add.commute add.left_commute)
  finally show "x * 2 powi j < 2 powi (exponent x + j + 1)" .
qed

lemma fl_scale_pos:
  assumes "0 < x"
  shows "fl (x * 2 powi j) = fl x * 2 powi j"
proof -
  have p: "(0::rat) < 2 powi j" by simp
  have xj: "0 < x * 2 powi j" using assms p by simp
  have u: "(2::rat) powi (exponent x + j - 52) = 2 powi (exponent x - 52) * 2 powi j"
  proof -
    have "exponent x + j - 52 = (exponent x - 52) + j" by simp
    then show ?thesis by (simp only: two_powi_add)
  qed
  have q: "x * 2 powi j / (2 powi (exponent x - 52) * 2 powi j) = x / 2 powi (exponent x - 52)"
    using p by simp
  show ?thesis
    by (simp only: fl_pos [OF xj] fl_pos [OF assms] exponent_scale [OF assms] u q mult.assoc)
qed

lemma fl_scale: "fl (x * 2 powi j) = fl x * 2 powi j"
proof -
  consider "0 < x" | "x = 0" | "x < 0" by linarith
  then show ?thesis
  proof cases
    case 1
    then show ?thesis by (rule fl_scale_pos)
  next
    case 2
    then show ?thesis by (simp add: fl_zero)
  next
    case 3
    then have "0 < - x" by simp
    from fl_scale_pos [OF this, of j] show ?thesis by (simp add: fl_minus)
  qed
qed

lemma fl_of_int:
  assumes "\<bar>k\<bar> \<le> 2 ^ 53"
  shows "fl (of_int k) = of_int k"
proof (cases "0 \<le> k")
  case True
  then have "nat k \<le> 2 ^ 53" using assms by (simp add: nat_le_iff)
  from fl_of_nat [OF this] True show ?thesis by simp
next
  case False
  then have "nat (- k) \<le> 2 ^ 53" using assms by (simp add: nat_le_iff)
  from fl_of_nat [OF this] False have "fl (of_int (- k)) = of_int (- k)" by simp
  then show ?thesis by (simp add: fl_minus)
qed

lemma fl_grid:
  assumes "\<bar>k\<bar> \<le> 2 ^ 53"
  shows "fl (of_int k * 2 powi j) = of_int k * 2 powi j"
  by (simp only: fl_scale fl_of_int [OF assms])

text \<open>Rounding does not cross a point that the argument keeps a grid step away from.\<close>

lemma fl_ge_of_gap:
  assumes gap: "a + 2 powi (- int K) \<le> x"
    and size: "\<bar>a\<bar> * 2 ^ K + 1 \<le> 2 ^ 53"
  shows "a \<le> fl x"
proof -
  define j where "j = \<lceil>a * 2 ^ K\<rceil>"
  have p: "(2::rat) powi (- int K) = 1 / 2 ^ K" by (simp add: power_int_minus field_simps)
  have k0: "(0::rat) < 2 ^ K" by simp
  have j1: "a * 2 ^ K \<le> of_int j" by (simp add: j_def)
  have j2: "of_int j < a * 2 ^ K + 1" unfolding j_def by linarith
  have lo: "a \<le> of_int j * 2 powi (- int K)"
    using j1 k0 by (simp add: p pos_le_divide_eq)
  have "of_int j * 2 powi (- int K) < (a * 2 ^ K + 1) * 2 powi (- int K)"
    using j2 by (simp add: p divide_strict_right_mono)
  also have "\<dots> = a + 2 powi (- int K)" by (simp add: p field_simps)
  finally have hi: "of_int j * 2 powi (- int K) \<le> x" using gap by simp
  have "\<bar>of_int j :: rat\<bar> \<le> \<bar>a * 2 ^ K\<bar> + 1" using j1 j2 by linarith
  also have "\<dots> = \<bar>a\<bar> * 2 ^ K + 1" by (simp add: abs_mult)
  also have "\<dots> \<le> 2 ^ 53" by (rule size)
  finally have "(of_int \<bar>j\<bar> :: rat) \<le> of_int (2 ^ 53)" by simp
  then have "\<bar>j\<bar> \<le> 2 ^ 53" by (simp only: of_int_le_iff)
  from fl_grid [OF this, of "- int K"] fl_mono [OF hi]
  have "of_int j * 2 powi (- int K) \<le> fl x" by simp
  with lo show ?thesis by simp
qed

lemma fl_le_of_gap:
  assumes gap: "x \<le> b - 2 powi (- int K)"
    and size: "\<bar>b\<bar> * 2 ^ K + 1 \<le> 2 ^ 53"
  shows "fl x \<le> b"
proof -
  have "- b + 2 powi (- int K) \<le> - x" using gap by simp
  moreover have "\<bar>- b\<bar> * 2 ^ K + 1 \<le> 2 ^ 53" using size by simp
  ultimately have "- b \<le> fl (- x)" by (rule fl_ge_of_gap)
  then show ?thesis by (simp add: fl_minus)
qed


lemma quotient_floor_parts:
  fixes A B :: int
  assumes "0 < B"
  shows "(of_int A :: rat) / of_int B = of_int (A div B) + of_int (A mod B) / of_int B"
proof -
  have "B * (A div B) + A mod B = A" by (rule mult_div_mod_eq)
  then have "(of_int (B * (A div B) + A mod B) :: rat) = of_int A" by (simp only:)
  then have "(of_int A :: rat) = of_int B * of_int (A div B) + of_int (A mod B)"
    by (simp only: of_int_add of_int_mult)
  then show ?thesis using assms by (simp add: field_simps)
qed

lemma floor_quotient_upper:
  fixes A B :: int
  assumes "0 < B"
  shows "(of_int A :: rat) / of_int B \<le> of_int (A div B) + 1 - 1 / of_int B"
proof -
  have "A mod B \<le> B - 1" using assms by simp
  then have "(of_int (A mod B) :: rat) \<le> of_int (B - 1)" by (simp only: of_int_le_iff)
  then have "(of_int (A mod B) :: rat) / of_int B \<le> of_int (B - 1) / of_int B"
    using assms by (simp add: divide_right_mono)
  also have "\<dots> = 1 - 1 / of_int B" using assms by (simp add: field_simps)
  finally show ?thesis using quotient_floor_parts [OF assms, of A] by linarith
qed

lemma floor_quotient_lower:
  fixes A B :: int
  assumes "0 < B" and "\<not> B dvd A"
  shows "of_int (A div B) + 1 / of_int B \<le> (of_int A :: rat) / of_int B"
proof -
  have "A mod B \<noteq> 0" using assms(2) by (simp add: dvd_eq_mod_eq_0)
  moreover have "0 \<le> A mod B" using assms(1) by simp
  ultimately have "1 \<le> A mod B" by linarith
  then have "(of_int 1 :: rat) \<le> of_int (A mod B)" by (simp only: of_int_le_iff)
  then have "(1::rat) / of_int B \<le> of_int (A mod B) / of_int B"
    using assms by (simp add: divide_right_mono)
  then show ?thesis using quotient_floor_parts [OF assms(1), of A] by linarith
qed

lemma Math_round_eqI:
  assumes "of_int m - 1 / 2 \<le> x" and "x < of_int m + 1 / 2"
  shows "Math_round x = m"
  unfolding Math_round_def using assms by (intro floor_unique) simp_all

text \<open>
  One rounding, then \<open>Math.round\<close>: the quotient of two integers, rounded to binary64, rounds
  to the same integer as the exact quotient (for a result between 0 and 100 and a divisor
  below \<open>2 ^ 32\<close>).
\<close>

lemma Math_round_fl_quotient:
  fixes S :: int and n :: nat
  assumes n: "0 < n" "n < 2 ^ 32" and S: "0 \<le> S" "S \<le> 100 * int n"
  shows "Math_round (fl (of_int S / of_nat n)) = \<lfloor>(of_int S :: rat) / of_nat n + 1 / 2\<rfloor>"
proof -
  define A where "A = 2 * S + int n"
  define B where "B = 2 * int n"
  define m where "m = A div B"
  let ?y = "(of_int S :: rat) / of_nat n"
  have B0: "0 < B" using n by (simp add: B_def)
  have n0: "(0::rat) < of_nat n" using n by simp
  have yAB: "?y + 1 / 2 = of_int A / of_int B"
    using n0 by (simp add: A_def B_def field_simps)
  have m_floor: "\<lfloor>?y + 1 / 2\<rfloor> = m"
    unfolding yAB m_def by (rule floor_divide_of_int_eq)
  have m0: "0 \<le> m" unfolding m_def using S(1) B0 by (simp add: A_def pos_imp_zdiv_nonneg_iff)
  have "A \<le> 201 * int n" using S(2) by (simp add: A_def)
  then have "A < B * 101" using n by (simp add: B_def)
  have m100: "m \<le> 100"
  proof (rule ccontr)
    assume "\<not> m \<le> 100"
    then have "101 \<le> A div B" by (simp add: m_def)
    then have "B * 101 \<le> B * (A div B)" using B0 by (simp add: mult_left_mono)
    moreover have "B * (A div B) \<le> A"
      using mult_div_mod_eq [of B A] pos_mod_sign [OF B0, of A] by linarith
    ultimately show False using \<open>A < B * 101\<close> by linarith
  qed
  have lo: "of_int m - 1 / 2 \<le> ?y"
  proof -
    have "of_int m \<le> ?y + 1 / 2" using m_floor by (metis of_int_floor_le)
    then show ?thesis by simp
  qed
  have "(of_int A :: rat) / of_int B \<le> of_int m + 1 - 1 / of_int B"
    unfolding m_def by (rule floor_quotient_upper [OF B0])
  then have hi: "?y \<le> of_int m + 1 / 2 - 1 / of_int B" by (simp add: yAB [symmetric])
  have "B \<le> 2 ^ 33" using n(2) by (simp add: B_def)
  then have "(of_int B :: rat) \<le> of_int (2 ^ 33)" by (simp only: of_int_le_iff)
  then have "(of_int B :: rat) \<le> 2 ^ 33" by simp
  moreover have "(0::rat) < of_int B" using B0 by simp
  ultimately have gapB: "(1::rat) / 2 ^ 33 \<le> 1 / of_int B"
    by (simp add: frac_le)
  have mr: "(of_int m :: rat) \<le> 100" "(0::rat) \<le> of_int m" using m100 m0 by simp_all
  have g1: "of_int (2 * m - 1) * 2 powi (- 1) = (of_int m :: rat) - 1 / 2"
    by (simp add: power_int_minus field_simps)
  have "\<bar>2 * m - 1\<bar> \<le> 2 ^ 53" using m0 m100 by simp
  from fl_grid [OF this, of "- 1"] have "fl (of_int m - 1 / 2) = of_int m - 1 / 2"
    by (simp only: g1)
  with fl_mono [OF lo] have lo': "of_int m - 1 / 2 \<le> fl ?y" by simp
  define b where "b = (of_int m :: rat) + 1 / 2 - 1 / 2 ^ 44"
  have p34: "(2::rat) powi (- int 34) = 1 / 2 ^ 34" by (simp add: power_int_minus field_simps)
  have c: "(1::rat) / 2 ^ 44 + 1 / 2 ^ 34 \<le> 1 / 2 ^ 33" by simp
  have "?y \<le> b - 1 / 2 ^ 34" unfolding b_def using hi gapB c by linarith
  then have gap: "?y \<le> b - 2 powi (- int 34)" by (simp only: p34)
  have b0: "0 \<le> b" "b \<le> 101" unfolding b_def using mr by simp_all
  then have "\<bar>b\<bar> = b" by simp
  moreover have "b * 2 ^ 34 \<le> 101 * 2 ^ 34" using b0(2) by simp
  moreover have "(101::rat) * 2 ^ 34 + 1 \<le> 2 ^ 53" by simp
  ultimately have size: "\<bar>b\<bar> * 2 ^ 34 + 1 \<le> 2 ^ 53" by linarith
  from fl_le_of_gap [OF gap size] have "fl ?y \<le> b" .
  then have hi': "fl ?y < of_int m + 1 / 2" unfolding b_def by simp
  from Math_round_eqI [OF lo' hi'] m_floor show ?thesis by simp
qed



subsection \<open>The enrollment counter\<close>

lemma fl_of_int_integral: "\<exists>m. fl (of_int n) = of_int m"
proof (cases "\<bar>n\<bar> \<le> 2 ^ 53")
  case True
  from fl_of_int [OF this] show ?thesis by blast
next
  case False
  define x :: rat where "x = of_int n"
  define a where "a = \<bar>x\<bar>"
  have big: "(2::rat) ^ 53 \<le> a"
  proof -
    from False have "2 ^ 53 \<le> \<bar>n\<bar>" by simp
    then have "(of_int (2 ^ 53) :: rat) \<le> of_int \<bar>n\<bar>" by (simp only: of_int_le_iff)
    then show ?thesis by (simp add: a_def x_def)
  qed
  then have pos: "0 < a" by (rule less_le_trans [rotated]) simp
  have "exponent ((2::rat) ^ 53) = 53"
    by (rule exponent_unique) simp_all
  with exponent_mono [of "2 ^ 53" a] big have e: "53 \<le> exponent a" by simp
  define j where "j = nat (exponent a - 52)"
  have j: "exponent a - 52 = int j" using e by (simp add: j_def)
  have u: "(2::rat) powi (exponent a - 52) = of_int (2 ^ j)" by (simp add: j)
  have sg: "sgn x = of_int (sgn n)" by (simp add: x_def sgn_if)
  have nz: "x \<noteq> 0" using pos by (auto simp: a_def)
  have "fl x = sgn x * of_int (round_even (a / 2 powi (exponent a - 52))) * 2 powi (exponent a - 52)"
    using nz by (simp add: fl_def Let_def a_def)
  also have "\<dots> = of_int (sgn n * round_even (a / 2 powi (exponent a - 52)) * 2 ^ j)"
    by (simp only: u sg of_int_mult)
  finally show ?thesis unfolding x_def by blast
qed

lemma js_increment_integral: "\<exists>m. js_add (js_number n) 1 = of_int m"
proof -
  obtain m where "fl (of_int n) = (of_int m :: rat)" using fl_of_int_integral by blast
  then have "js_add (js_number n) 1 = fl (of_int (m + 1))" by (simp add: js_add_def js_number_def)
  then show ?thesis using fl_of_int_integral [of "m + 1"] by simp
qed

lemma js_increment_exact:
  assumes "\<bar>n\<bar> < 2 ^ 53"
  shows "stored_int (js_add (js_number n) 1) = n + 1"
proof -
  from assms have a: "\<bar>n\<bar> \<le> 2 ^ 53" and b: "\<bar>n + 1\<bar> \<le> 2 ^ 53" by simp_all
  have "fl (of_int (n + 1)) = (of_int (n + 1) :: rat)" by (rule fl_of_int [OF b])
  then have "js_add (js_number n) 1 = of_int (n + 1)"
    by (simp add: js_add_def js_number_def fl_of_int [OF a])
  then show ?thesis by (simp only: stored_int_def floor_of_int)
qed

text \<open>At \<open>2 ^ 53\<close> the sum is rounded back: the counter stays where it is.\<close>

lemma js_increment_saturates:
  "stored_int (js_add (js_number 9007199254740992) 1) = 9007199254740992"
  by code_simp

section \<open>The store operations, block by block\<close>

lemma matches_uc_user_course:
  "matches uc_col [(''user_id'', Str u), (''course_id'', Str c)]
     = (\<lambda>r. uc_user_id r = u \<and> uc_course_id r = c)"
  by (rule ext) (simp add: matches_def uc_col_def)

lemma matches_uc_id_user:
  "matches uc_col [(''id'', Num i), (''user_id'', Str u)] = (\<lambda>r. uc_id r = i \<and> uc_user_id r = u)"
  by (rule ext) (simp add: matches_def uc_col_def)

lemma matches_up_user_activity:
  "matches up_col [(''user_id'', Str u), (''activity_id'', Str a)]
     = (\<lambda>r. up_user_id r = u \<and> up_activity_id r = a)"
  by (rule ext) (simp add: matches_def up_col_def)

lemma matches_up_id_user:
  "matches up_col [(''id'', Num i), (''user_id'', Str u)] = (\<lambda>r. up_id r = i \<and> up_user_id r = u)"
  by (rule ext) (simp add: matches_def up_col_def)

lemma matches_up_completed:
  "matches up_col [(''user_id'', Str u), (''course_id'', Str c), (''completed'', Bool True)]
     = (\<lambda>r. up_user_id r = u \<and> up_course_id r = c \<and> up_completed r)"
  by (rule ext) (simp add: matches_def up_col_def)

lemma matches_act_id:
  "matches act_col [(''id'', Str a)] = (\<lambda>r. act_id r = a)"
  by (rule ext) (simp add: matches_def act_col_def)

lemma matches_act_published:
  "matches act_col [(''course_id'', Str c), (''status'', Str ''published'')]
     = (\<lambda>r. act_course_id r = c \<and> act_status r = ''published'')"
  by (rule ext) (simp add: matches_def act_col_def)

lemma matches_crs_id:
  "matches crs_col [(''id'', Str c)] = (\<lambda>r. crs_id r = c)"
  by (rule ext) (simp add: matches_def crs_col_def)

lemmas matches_simps =
  matches_uc_user_course matches_uc_id_user matches_up_user_activity matches_up_id_user
  matches_up_completed matches_act_id matches_act_published matches_crs_id

lemmas op_defs =
  single_activities_def select_activities_def single_courses_def update_courses_def
  single_user_courses_def insert_user_courses_def update_user_courses_def
  single_user_progress_def select_user_progress_def insert_user_progress_def
  update_user_progress_def issue_def

lemma select_single_cases:
  "select_single f col fs rows = (Some r, e) \<longleftrightarrow>
     f = None \<and> filter (matches col fs) rows = [r] \<and> e = None"
  by (auto simp: select_single_def split: option.splits list.splits)

lemma select_single_None:
  "fst (select_single f col fs rows) = None \<longleftrightarrow>
     f \<noteq> None \<or> (\<forall>r. filter (matches col fs) rows \<noteq> [r])"
  by (auto simp: select_single_def split: option.splits list.splits)

subsection \<open>Auto-enrollment\<close>

lemma autoEnroll_activities: "activities (autoEnroll E u c s) = activities s"
  by (simp add: autoEnroll_def op_defs Let_def split: prod.splits option.splits)

lemma autoEnroll_user_progress: "user_progress (autoEnroll E u c s) = user_progress s"
  by (simp add: autoEnroll_def op_defs Let_def split: prod.splits option.splits)


lemma autoEnroll_user_courses_cases:
  "user_courses (autoEnroll E u c s) = user_courses s \<or>
   user_courses (autoEnroll E u c s) =
     user_courses s @ [enrollment_row u c 0 0 (now E) (next_id (map uc_id (user_courses s)))]"
  by (simp add: autoEnroll_def op_defs Let_def split: prod.splits option.splits)

lemma autoEnroll_found:
  assumes "fault E GetUserCourse = None" and "enrollments_of s u c = [r]"
  shows "autoEnroll E u c s =
           s\<lparr>trace := trace s @ [Select UserCourses [(''user_id'', Str u), (''course_id'', Str c)]]\<rparr>"
  using assms
  by (simp add: autoEnroll_def op_defs Let_def select_single_def matches_simps enrollments_of_def)

lemma autoEnroll_new:
  assumes "fault E InsertUserCourse = None"
    and "fault E GetCourse = None" and "fault E UpdateCourse = None"
    and "enrollments_of s u c = []" and "course_of s c = [k]"
  shows "autoEnroll E u c s =
           s\<lparr>user_courses := user_courses s @
                  [enrollment_row u c 0 0 (now E) (next_id (map uc_id (user_courses s)))],
              courses := map (\<lambda>r. if crs_id r = c
                                    then enrollment_count
                                      (stored_int (js_add (js_number (crs_total_enrollment k)) 1))
                                      (now E) r
                                    else r) (courses s),
              trace := trace s @
                  [Select UserCourses [(''user_id'', Str u), (''course_id'', Str c)],
                   Insert UserCourses,
                   Select Courses [(''id'', Str c)],
                   Update Courses [(''id'', Str c)]]\<rparr>"
  using assms
  by (cases "fault E GetUserCourse")
     (simp_all add: autoEnroll_def op_defs Let_def select_single_def update_rows_def matches_simps
      enrollments_of_def course_of_def)

subsection \<open>The progress write\<close>

lemma writeProgress_activities:
  "activities (snd (writeProgress E u a c sc cp an ts s)) = activities s"
  by (simp add: writeProgress_def op_defs Let_def split: prod.splits option.splits)

lemma writeProgress_user_courses:
  "user_courses (snd (writeProgress E u a c sc cp an ts s)) = user_courses s"
  by (simp add: writeProgress_def op_defs Let_def split: prod.splits option.splits)

lemma writeProgress_courses:
  "courses (snd (writeProgress E u a c sc cp an ts s)) = courses s"
  by (simp add: writeProgress_def op_defs Let_def split: prod.splits option.splits)

lemma writeProgress_error:
  "snd (fst (writeProgress E u a c sc cp an ts s)) = fault E WriteProgress"
  by (simp add: writeProgress_def op_defs Let_def split: prod.splits option.splits)

lemma single_user_progress_found:
  "single_user_progress (fault E GetProgress)
        [(''user_id'', Str u), (''activity_id'', Str a)] s
     = ((found_progress E s u a,
         if found_progress E s u a = None
         then Some (case fault E GetProgress of None \<Rightarrow> PGRST116 | Some e \<Rightarrow> e) else None),
        issue (Select UserProgress [(''user_id'', Str u), (''activity_id'', Str a)]) s)"
  by (simp add: single_user_progress_def select_single_def found_progress_def progress_of_def
      matches_simps split: option.splits list.splits)

lemma writeProgress_update_path:
  assumes "found_progress E s u a = Some p" and "up_id p \<noteq> 0"
  shows "writeProgress E u a c sc cp an ts s =
           update_user_progress (fault E WriteProgress)
             [(''id'', Num (up_id p)), (''user_id'', Str u)]
             (progressData u a c sc cp an (time_spent_of ts (Some p)) (now E))
             (issue (Select UserProgress [(''user_id'', Str u), (''activity_id'', Str a)]) s)"
  using assms by (simp add: writeProgress_def single_user_progress_found Let_def)

lemma writeProgress_insert_path:
  assumes "found_progress E s u a = None \<or> (\<exists>p. found_progress E s u a = Some p \<and> up_id p = 0)"
  shows "writeProgress E u a c sc cp an ts s =
           insert_user_progress (fault E WriteProgress)
             (progress_row u a c sc cp an (time_spent_of ts (found_progress E s u a)) (now E))
             (issue (Select UserProgress [(''user_id'', Str u), (''activity_id'', Str a)]) s)"
  using assms by (auto simp: writeProgress_def single_user_progress_found Let_def)

lemma found_progress_Some:
  assumes "found_progress E s u a = Some p"
  shows "fault E GetProgress = None \<and> progress_of s u a = [p] \<and> p \<in> set (user_progress s) \<and>
         up_user_id p = u \<and> up_activity_id p = a"
proof -
  from assms have f: "fault E GetProgress = None" and q: "progress_of s u a = [p]"
    by (auto simp: found_progress_def split: option.splits list.splits)
  from q have "p \<in> set (progress_of s u a)" by simp
  then show ?thesis using f q by (simp add: progress_of_def)
qed

lemma next_id_fresh: "i \<in> set ids \<Longrightarrow> i < next_id ids"
  by (induction ids) (auto simp: next_id_def)

lemma next_id_notin: "next_id ids \<notin> set ids"
  using next_id_fresh [of "next_id ids" ids] by auto

lemma next_id_nonzero: "next_id ids \<noteq> 0"
  by (simp add: next_id_def)

text \<open>The rows a successful write answers with are in the table and carry the payload.\<close>

lemma writeProgress_rows:
  assumes "writeProgress E u a c sc cp an ts s = ((Some rows, None), s')"
    and "r \<in> set rows"
  shows "r \<in> set (user_progress s') \<and> up_user_id r = u \<and> up_activity_id r = a \<and>
         up_course_id r = c \<and> up_score r = sc \<and> up_completed r = cp \<and>
         up_time_spent r = time_spent_of ts (found_progress E s u a)"
  using assms
  by (auto simp: writeProgress_def single_user_progress_found update_user_progress_def
      insert_user_progress_def issue_def Let_def update_rows_def progressData_def progress_row_def
      split: prod.splits option.splits if_splits)

lemma writeProgress_data:
  assumes "writeProgress E u a c sc cp an ts s = ((data, None), s')"
  shows "\<exists>r rows. data = Some (r # rows)"
proof (cases "\<exists>p. found_progress E s u a = Some p \<and> up_id p \<noteq> 0")
  case True
  then obtain p where p: "found_progress E s u a = Some p" "up_id p \<noteq> 0" by blast
  from found_progress_Some [OF p(1)]
  have "p \<in> set (filter (\<lambda>r. up_id r = up_id p \<and> up_user_id r = u) (user_progress s))"
    by simp
  then obtain q qs where "filter (\<lambda>r. up_id r = up_id p \<and> up_user_id r = u) (user_progress s) = q # qs"
    by (cases "filter (\<lambda>r. up_id r = up_id p \<and> up_user_id r = u) (user_progress s)") auto
  then show ?thesis using assms
    by (auto simp: writeProgress_update_path [OF p] update_user_progress_def issue_def Let_def
        matches_simps split: option.splits)
next
  case False
  then have "found_progress E s u a = None \<or> (\<exists>p. found_progress E s u a = Some p \<and> up_id p = 0)"
    by (cases "found_progress E s u a") auto
  from writeProgress_insert_path [OF this] assms show ?thesis
    by (auto simp: insert_user_progress_def issue_def Let_def split: option.splits)
qed


subsection \<open>The enrollment write of the aggregator\<close>

lemma single_user_courses_found:
  "single_user_courses (fault E AggUserCourse)
        [(''user_id'', Str u), (''course_id'', Str c)] s
     = ((found_enrollment E s u c,
         if found_enrollment E s u c = None
         then Some (case fault E AggUserCourse of None \<Rightarrow> PGRST116 | Some e \<Rightarrow> e) else None),
        issue (Select UserCourses [(''user_id'', Str u), (''course_id'', Str c)]) s)"
  by (simp add: single_user_courses_def select_single_def found_enrollment_def enrollments_of_def
      matches_simps split: option.splits list.splits)

lemma found_enrollment_Some:
  assumes "found_enrollment E s u c = Some r"
  shows "fault E AggUserCourse = None \<and> enrollments_of s u c = [r] \<and> r \<in> set (user_courses s) \<and>
         uc_user_id r = u \<and> uc_course_id r = c"
proof -
  from assms have f: "fault E AggUserCourse = None" and q: "enrollments_of s u c = [r]"
    by (auto simp: found_enrollment_def split: option.splits list.splits)
  from q have "r \<in> set (enrollments_of s u c)" by simp
  then show ?thesis using f q by (simp add: enrollments_of_def)
qed

lemma write_user_course_update_path:
  assumes "found_enrollment E s u c = Some r" and "uc_id r \<noteq> 0"
  shows "write_user_course E u c p a s =
           snd (update_user_courses (fault E AggWriteUserCourse)
             [(''id'', Num (uc_id r)), (''user_id'', Str u)] (userCourseData p a (now E))
             (issue (Select UserCourses [(''user_id'', Str u), (''course_id'', Str c)]) s))"
  using assms by (simp add: write_user_course_def single_user_courses_found Let_def)

lemma write_user_course_insert_path:
  assumes "found_enrollment E s u c = None \<or> (\<exists>r. found_enrollment E s u c = Some r \<and> uc_id r = 0)"
  shows "write_user_course E u c p a s =
           snd (insert_user_courses (fault E AggWriteUserCourse) (enrollment_row u c p a (now E))
             (issue (Select UserCourses [(''user_id'', Str u), (''course_id'', Str c)]) s))"
  using assms by (auto simp: write_user_course_def single_user_courses_found Let_def)

lemma write_user_course_frame:
  "activities (write_user_course E u c p a s) = activities s \<and>
   user_progress (write_user_course E u c p a s) = user_progress s \<and>
   courses (write_user_course E u c p a s) = courses s"
  by (simp add: write_user_course_def op_defs Let_def split: prod.splits option.splits)

subsection \<open>The aggregator\<close>

lemma progressPercentage_Some:
  "0 < t \<Longrightarrow> progressPercentage n t =
     Some (Math_round (js_mul (fl (of_nat n / of_nat t)) 100))"
  by (simp add: progressPercentage_def js_div_def)

lemma averageScore_Some: "\<exists>a. averageScore rows = Some a"
  by (simp add: averageScore_def js_div_def)

lemma updateCourseProgress_frame:
  assumes "updateCourseProgress E u c s = Some s'"
  shows "activities s' = activities s \<and> user_progress s' = user_progress s \<and> courses s' = courses s"
  using assms write_user_course_frame
  by (auto simp: updateCourseProgress_def select_activities_def select_user_progress_def issue_def
      Let_def split: prod.splits option.splits if_splits)

lemma updateCourseProgress_eq:
  "updateCourseProgress E u c s =
     (let s1 = issue (Select Activities [(''course_id'', Str c), (''status'', Str ''published'')]) s;
          s2 = issue (Select UserProgress [(''user_id'', Str u), (''course_id'', Str c),
                 (''completed'', Bool True)]) s1
      in if fault E AggActivities \<noteq> None \<or> published_of s c = [] then Some s1
         else if fault E AggCompleted \<noteq> None then Some s2
         else Some (write_user_course E u c
                 (Math_round (js_mul (fl (of_nat (length (completed_of s u c)) /
                    of_nat (length (published_of s c)))) 100))
                 (the (averageScore (completed_of s u c))) s2))"
proof -
  obtain a where a: "averageScore (completed_of s u c) = Some a" using averageScore_Some by blast
  show ?thesis
    by (auto simp: updateCourseProgress_def select_activities_def select_user_progress_def issue_def
      Let_def select_rows_def matches_simps published_of_def completed_of_def
      progressPercentage_Some a [unfolded completed_of_def]
      split: prod.splits option.splits)
qed


lemma updateCourseProgress_total: "\<exists>s'. updateCourseProgress E u c s = Some s'"
  by (simp add: updateCourseProgress_eq Let_def)

text \<open>The enrollment row after the aggregator's write.\<close>

lemma filter_update_all:
  assumes "\<And>x. P (f x) = P x" and "\<And>x. x \<in> set xs \<Longrightarrow> P x \<Longrightarrow> Q x"
  shows "filter P (map (\<lambda>x. if Q x then f x else x) xs) = map f (filter P xs)"
  using assms(2) by (induction xs) (auto simp: assms(1))

lemma filter_update_none:
  assumes "\<And>x. Q x \<Longrightarrow> \<not> P x" and "\<And>x. Q x \<Longrightarrow> \<not> P (f x)"
  shows "filter P (map (\<lambda>x. if Q x then f x else x) xs) = filter P xs"
  by (induction xs) (auto simp: assms)

lemma write_user_course_enrollment:
  assumes "fault E AggUserCourse = None" and "fault E AggWriteUserCourse = None"
    and "enrollments_of s u c = [] \<or> (\<exists>r. enrollments_of s u c = [r] \<and> uc_id r \<noteq> 0)"
  shows "\<exists>r. enrollments_of (write_user_course E u c p a s) u c = [r] \<and>
             uc_progress r = p \<and> uc_score r = a"
proof (cases "enrollments_of s u c")
  case Nil
  then have "found_enrollment E s u c = None" by (simp add: found_enrollment_def assms(1))
  then have "write_user_course E u c p a s =
           snd (insert_user_courses (fault E AggWriteUserCourse) (enrollment_row u c p a (now E))
             (issue (Select UserCourses [(''user_id'', Str u), (''course_id'', Str c)]) s))"
    by (intro write_user_course_insert_path) simp
  then show ?thesis using Nil assms(2)
    by (simp add: insert_user_courses_def issue_def Let_def enrollments_of_def enrollment_row_def)
next
  case (Cons r rs)
  with assms(3) have r: "enrollments_of s u c = [r]" "uc_id r \<noteq> 0" by auto
  then have f: "found_enrollment E s u c = Some r" by (simp add: found_enrollment_def assms(1))
  have m: "uc_id x = uc_id r \<and> uc_user_id x = u"
    if "x \<in> set (user_courses s)" "uc_user_id x = u \<and> uc_course_id x = c" for x
  proof -
    from that have "x \<in> set (enrollments_of s u c)" by (simp add: enrollments_of_def)
    then show ?thesis using that(2) by (simp add: r(1))
  qed
  have "filter (\<lambda>x. uc_user_id x = u \<and> uc_course_id x = c)
          (map (\<lambda>x. if uc_id x = uc_id r \<and> uc_user_id x = u
                    then userCourseData p a (now E) x else x) (user_courses s))
        = map (userCourseData p a (now E))
            (filter (\<lambda>x. uc_user_id x = u \<and> uc_course_id x = c) (user_courses s))"
    by (rule filter_update_all) (simp_all add: userCourseData_def m)
  then have "enrollments_of (write_user_course E u c p a s) u c
          = map (userCourseData p a (now E)) (enrollments_of s u c)"
    unfolding write_user_course_update_path [OF f r(2)] enrollments_of_def
    using assms(2)
    by (simp add: update_user_courses_def issue_def Let_def update_rows_def matches_simps)
  then show ?thesis by (simp add: r(1) userCourseData_def)
qed

subsection \<open>What the roundings of the aggregator amount to\<close>

lemma totalScore_fold_exact:
  assumes "\<forall>r\<in>set rows. 0 \<le> up_score r \<and> up_score r \<le> 100"
    and "0 \<le> a" and "a + 100 * int (length rows) \<le> 2 ^ 53"
  shows "foldl (\<lambda>sum x. js_add sum (of_int (up_score x))) (of_int a) rows
           = of_int (a + sum_list (map up_score rows))"
  using assms
proof (induction rows arbitrary: a)
  case Nil
  then show ?case by simp
next
  case (Cons r rows)
  have r: "0 \<le> up_score r" "up_score r \<le> 100" using Cons.prems(1) by simp_all
  have "\<bar>a + up_score r\<bar> \<le> 2 ^ 53" using r Cons.prems(2,3) by simp
  from fl_of_int [OF this]
  have step: "js_add (of_int a) (of_int (up_score r)) = of_int (a + up_score r)"
    by (simp add: js_add_def)
  have rows: "\<forall>r\<in>set rows. 0 \<le> up_score r \<and> up_score r \<le> 100" using Cons.prems(1) by simp
  have a0: "0 \<le> a + up_score r" using r(1) Cons.prems(2) by simp
  have a1: "a + up_score r + 100 * int (length rows) \<le> 2 ^ 53" using r(2) Cons.prems(3) by simp
  from Cons.IH [OF rows a0 a1] show ?case by (simp add: step add.assoc)
qed

lemma sum_list_scores_range:
  assumes "\<forall>r\<in>set rows. 0 \<le> up_score r \<and> up_score r \<le> 100"
  shows "0 \<le> sum_list (map up_score rows) \<and> sum_list (map up_score rows) \<le> 100 * int (length rows)"
  using assms by (induction rows) auto

text \<open>
  The average the aggregator writes is the exact average of the scores, rounded half up,
  when the scores are integers between 0 and 100.
\<close>

lemma averageScore_exact:
  assumes sc: "\<forall>r\<in>set rows. 0 \<le> up_score r \<and> up_score r \<le> 100"
    and n: "rows \<noteq> []" "length rows < 2 ^ 32"
  shows "averageScore rows =
           Some \<lfloor>rat_of_int (sum_list (map up_score rows)) / rat_of_nat (length rows) + 1 / 2\<rfloor>"
proof -
  let ?S = "sum_list (map up_score rows)"
  have "100 * int (length rows) < 100 * 2 ^ 32" using n(2) by simp
  then have "0 + 100 * int (length rows) \<le> 2 ^ 53" by simp
  from totalScore_fold_exact [OF sc _ this]
  have t: "totalScore rows = of_int ?S" using n(1) by (simp add: totalScore_def)
  have n0: "0 < length rows" using n(1) by simp
  from sum_list_scores_range [OF sc] have S: "0 \<le> ?S" "?S \<le> 100 * int (length rows)" by simp_all
  from Math_round_fl_quotient [OF n0 n(2) S] show ?thesis
    using n0 by (simp add: averageScore_def js_div_def t)
qed

text \<open>
  Two roundings, then \<open>Math.round\<close>: the percentage is the exact \<open>100 c / t\<close> rounded half
  up, unless \<open>100 c / t\<close> lies exactly half-way between two integers (then the product may
  have been rounded below the half).
\<close>

lemma progressPercentage_exact:
  fixes c t :: nat
  assumes ct: "c \<le> t" "0 < t" "t < 2 ^ 32"
    and tie: "\<not> 2 * t dvd 200 * c + t"
  shows "progressPercentage c t = Some \<lfloor>100 * rat_of_nat c / rat_of_nat t + 1 / 2\<rfloor>"
proof -
  define A where "A = 200 * int c + int t"
  define B where "B = 2 * int t"
  define m where "m = A div B"
  let ?x = "rat_of_nat c / rat_of_nat t"
  let ?y = "100 * rat_of_nat c / rat_of_nat t"
  have B0: "0 < B" using ct by (simp add: B_def)
  have t0: "(0::rat) < of_nat t" using ct by simp
  have yAB: "?y + 1 / 2 = of_int A / of_int B"
    using t0 by (simp add: A_def B_def field_simps)
  have m_floor: "\<lfloor>?y + 1 / 2\<rfloor> = m"
    unfolding yAB m_def by (rule floor_divide_of_int_eq)
  have m0: "0 \<le> m" unfolding m_def using B0 by (simp add: A_def pos_imp_zdiv_nonneg_iff)
  have "A \<le> 201 * int t" using ct(1) by (simp add: A_def)
  then have AB: "A < B * 101" using ct(2) by (simp add: B_def)
  have m100: "m \<le> 100"
  proof (rule ccontr)
    assume "\<not> m \<le> 100"
    then have "101 \<le> A div B" by (simp add: m_def)
    then have "B * 101 \<le> B * (A div B)" using B0 by (simp add: mult_left_mono)
    moreover have "B * (A div B) \<le> A"
      using mult_div_mod_eq [of B A] pos_mod_sign [OF B0, of A] by linarith
    ultimately show False using AB by linarith
  qed
  have mr: "(of_int m :: rat) \<le> 100" "(0::rat) \<le> of_int m" using m100 m0 by simp_all
  have nd: "\<not> B dvd A"
  proof
    assume "B dvd A"
    then have "int (2 * t) dvd int (200 * c + t)" by (simp add: A_def B_def)
    then have "2 * t dvd 200 * c + t" by (simp only: int_dvd_int_iff)
    with tie show False by simp
  qed
  have up: "(of_int A :: rat) / of_int B \<le> of_int m + 1 - 1 / of_int B"
    unfolding m_def by (rule floor_quotient_upper [OF B0])
  have low: "of_int m + 1 / of_int B \<le> (of_int A :: rat) / of_int B"
    unfolding m_def by (rule floor_quotient_lower [OF B0 nd])
  have "B \<le> 2 ^ 33" using ct(3) by (simp add: B_def)
  then have "(of_int B :: rat) \<le> of_int (2 ^ 33)" by (simp only: of_int_le_iff)
  then have "(of_int B :: rat) \<le> 2 ^ 33" by simp
  moreover have Bp: "(0::rat) < of_int B" using B0 by simp
  ultimately have gapB: "(1::rat) / 2 ^ 33 \<le> 1 / of_int B" by (simp add: frac_le)
  define Y where "Y = ?y"
  define e33 e41 e43 e44 :: rat
    where "e33 = 1 / 2 ^ 33" and "e41 = 1 / 2 ^ 41" and "e43 = 1 / 2 ^ 43" and "e44 = 1 / 2 ^ 44"
  have gapB': "e33 \<le> 1 / of_int B" using gapB by (simp only: e33_def)
  have y_lo: "of_int m - 1 / 2 + e33 \<le> Y" unfolding Y_def using low gapB' yAB by linarith
  have y_hi: "Y \<le> of_int m + 1 / 2 - e33" unfolding Y_def using up gapB' yAB by linarith
  define X where "X = ?x"
  have xy: "X * 100 = Y" by (simp add: X_def Y_def)
  have p41: "(2::rat) powi (- int 41) = e41" by (simp add: e41_def power_int_minus field_simps)
  have p44: "(2::rat) powi (- int 44) = e44" by (simp add: e44_def power_int_minus field_simps)
  have c1: "e43 + 100 * e41 \<le> e33" by (simp add: e33_def e41_def e43_def)
  have c2: "e44 + e44 = e43" "0 < e44" by (simp_all add: e43_def e44_def)
  have c3: "e43 \<le> 1 / 2" by (simp add: e43_def)
  define q where "q = fl X"
  define a1 where "a1 = ((of_int m :: rat) - 1 / 2 + e43) / 100"
  have a1e: "a1 * 100 = of_int m - 1 / 2 + e43" by (simp add: a1_def)
  have "a1 + e41 \<le> X" using a1e xy y_lo c1 by linarith
  then have g1: "a1 + 2 powi (- int 41) \<le> X" by (simp only: p41)
  have a1r: "- 1 \<le> a1" "a1 \<le> 2" using a1e mr c2 c3 by linarith+
  then have "\<bar>a1\<bar> \<le> 2" by (simp add: abs_le_iff)
  then have "\<bar>a1\<bar> * 2 ^ 41 \<le> 2 * 2 ^ 41" by simp
  moreover have "(2::rat) * 2 ^ 41 + 1 \<le> 2 ^ 53" by simp
  ultimately have s1: "\<bar>a1\<bar> * 2 ^ 41 + 1 \<le> 2 ^ 53" by linarith
  from fl_ge_of_gap [OF g1 s1] have "a1 \<le> q" by (simp add: q_def)
  then have q_lo: "of_int m - 1 / 2 + e43 \<le> q * 100" using a1e by linarith
  define a2 where "a2 = (of_int m :: rat) - 1 / 2"
  have "a2 + e44 \<le> q * 100" unfolding a2_def using q_lo c2 by linarith
  then have g2: "a2 + 2 powi (- int 44) \<le> q * 100" by (simp only: p44)
  have a2r: "- 1 \<le> a2" "a2 \<le> 100" unfolding a2_def using mr by linarith+
  then have "\<bar>a2\<bar> \<le> 100" by (simp add: abs_le_iff)
  then have "\<bar>a2\<bar> * 2 ^ 44 \<le> 100 * 2 ^ 44" by simp
  moreover have "(100::rat) * 2 ^ 44 + 1 \<le> 2 ^ 53" by simp
  ultimately have s2: "\<bar>a2\<bar> * 2 ^ 44 + 1 \<le> 2 ^ 53" by linarith
  from fl_ge_of_gap [OF g2 s2] have lo': "of_int m - 1 / 2 \<le> fl (q * 100)" by (simp add: a2_def)
  define b1 where "b1 = ((of_int m :: rat) + 1 / 2 - e43) / 100"
  have b1e: "b1 * 100 = of_int m + 1 / 2 - e43" by (simp add: b1_def)
  have "X \<le> b1 - e41" using b1e xy y_hi c1 by linarith
  then have h1: "X \<le> b1 - 2 powi (- int 41)" by (simp only: p41)
  have b1r: "- 1 \<le> b1" "b1 \<le> 2" using b1e mr c2 c3 by linarith+
  then have "\<bar>b1\<bar> \<le> 2" by (simp add: abs_le_iff)
  then have "\<bar>b1\<bar> * 2 ^ 41 \<le> 2 * 2 ^ 41" by simp
  moreover have "(2::rat) * 2 ^ 41 + 1 \<le> 2 ^ 53" by simp
  ultimately have t1: "\<bar>b1\<bar> * 2 ^ 41 + 1 \<le> 2 ^ 53" by linarith
  from fl_le_of_gap [OF h1 t1] have "q \<le> b1" by (simp add: q_def)
  then have q_hi: "q * 100 \<le> of_int m + 1 / 2 - e43" using b1e by linarith
  define b2 where "b2 = (of_int m :: rat) + 1 / 2 - e44"
  have "q * 100 \<le> b2 - e44" unfolding b2_def using q_hi c2 by linarith
  then have h2: "q * 100 \<le> b2 - 2 powi (- int 44)" by (simp only: p44)
  have b2r: "0 \<le> b2" "b2 \<le> 101" unfolding b2_def using mr c2 c3 by linarith+
  then have "\<bar>b2\<bar> = b2" by simp
  moreover have "b2 * 2 ^ 44 \<le> 101 * 2 ^ 44" using b2r(2) by simp
  moreover have "(101::rat) * 2 ^ 44 + 1 \<le> 2 ^ 53" by simp
  ultimately have t2: "\<bar>b2\<bar> * 2 ^ 44 + 1 \<le> 2 ^ 53" by linarith
  from fl_le_of_gap [OF h2 t2] have "fl (q * 100) \<le> b2" .
  then have hi': "fl (q * 100) < of_int m + 1 / 2" unfolding b2_def using c2 by linarith
  from Math_round_eqI [OF lo' hi'] have "Math_round (fl (q * 100)) = m" .
  then show ?thesis
    using ct(2) by (simp add: progressPercentage_Some js_mul_def q_def X_def m_floor)
qed


subsection \<open>The action as a whole\<close>


lemma save_Success:
  assumes "saveActivityProgress E a sc cp an ts s = Some (Success rows, s')"
  obtains act s3 u where
    "client_throws E = None" "auth_error E = None" "auth_user E = Some u"
    "fault E GetActivity = None" "activity_of s a = [act]"
    "writeProgress E u a (act_course_id act) sc cp an ts
       (autoEnroll E u (act_course_id act) (issue (Select Activities [(''id'', Str a)]) s))
      = ((Some rows, None), s3)"
    "updateCourseProgress E u (act_course_id act) s3 = Some s'"
proof -
  from assms have c: "client_throws E = None" and e: "auth_error E = None"
    by (auto simp: saveActivityProgress_def split: option.splits if_splits)
  from assms c e obtain u where u: "auth_user E = Some u"
    by (auto simp: saveActivityProgress_def split: option.splits)
  from assms c e u obtain act where
    act: "select_single (fault E GetActivity) act_col [(''id'', Str a)] (activities s) = (Some act, None)"
    by (auto simp: saveActivityProgress_def single_activities_def select_single_def
        split: option.splits prod.splits list.splits)
  then have g: "fault E GetActivity = None" and ao: "activity_of s a = [act]"
    by (auto simp: select_single_cases matches_simps activity_of_def)
  let ?s2 = "autoEnroll E u (act_course_id act) (issue (Select Activities [(''id'', Str a)]) s)"
  obtain data err s3 where w:
    "writeProgress E u a (act_course_id act) sc cp an ts ?s2 = ((data, err), s3)"
    by (metis prod.exhaust)
  from assms c e u act w have err: "err = None"
    and rest: "\<exists>s4. updateCourseProgress E u (act_course_id act) s3 = Some s4 \<and>
                 rows = (case data of None \<Rightarrow> [] | Some r \<Rightarrow> r) \<and> s' = s4"
    by (auto simp: saveActivityProgress_def single_activities_def Let_def
        split: option.splits prod.splits)
  from writeProgress_data [OF w [unfolded err]] obtain r rs where d: "data = Some (r # rs)" by blast
  from rest d have "rows = r # rs" "updateCourseProgress E u (act_course_id act) s3 = Some s'"
    by auto
  with that [OF c e u g ao] w err d show thesis by simp
qed

lemma found_progress_cong:
  assumes "user_progress s2 = user_progress s"
  shows "found_progress E s2 u a = found_progress E s u a"
proof -
  have h: "progress_of s2 u a = progress_of s u a" using assms by (simp add: progress_of_def)
  show ?thesis unfolding found_progress_def h by (rule refl)
qed

lemma autoEnroll_issue_user_progress:
  "user_progress (autoEnroll E u c (issue q s)) = user_progress s"
  by (simp add: autoEnroll_user_progress issue_def)

lemma save_Success_rows:
  assumes "saveActivityProgress E a sc cp an ts s = Some (Success rows, s')"
    and "auth_user E = Some u"
  shows "rows \<noteq> [] \<and>
         (\<forall>r\<in>set rows. r \<in> set (user_progress s') \<and> up_user_id r = u \<and> up_activity_id r = a \<and>
            up_score r = sc \<and> up_completed r = cp \<and>
            up_time_spent r = time_spent_of ts (found_progress E s u a))"
proof -
  from assms(1) obtain act s3 v where
    "client_throws E = None" "auth_error E = None"
    and v: "auth_user E = Some v"
    and "fault E GetActivity = None" "activity_of s a = [act]"
    and w: "writeProgress E v a (act_course_id act) sc cp an ts
       (autoEnroll E v (act_course_id act) (issue (Select Activities [(''id'', Str a)]) s))
      = ((Some rows, None), s3)"
    and g: "updateCourseProgress E v (act_course_id act) s3 = Some s'"
    by (rule save_Success)
  from v assms(2) have vu: "v = u" by simp
  note w = w [unfolded vu] and g = g [unfolded vu]
  from writeProgress_data [OF w] have ne: "rows \<noteq> []" by auto
  have up: "user_progress s' = user_progress s3" using updateCourseProgress_frame [OF g] by simp
  have fp: "found_progress E
       (autoEnroll E u (act_course_id act) (issue (Select Activities [(''id'', Str a)]) s)) u a
      = found_progress E s u a"
    by (rule found_progress_cong) (rule autoEnroll_issue_user_progress)
  show ?thesis using writeProgress_rows [OF w] ne unfolding fp up by simp
qed


lemma filter_update_matched:
  assumes "\<And>x. x \<in> set xs \<Longrightarrow> P x \<Longrightarrow> Q x"
    and "\<And>x. x \<in> set xs \<Longrightarrow> Q x \<Longrightarrow> P (f x) = P x"
  shows "filter P (map (\<lambda>x. if Q x then f x else x) xs) = map f (filter P xs)"
  using assms by (induction xs) auto

lemma distinct_map_filter_le:
  "distinct (map f xs) \<Longrightarrow> length (filter (\<lambda>x. f x = k) xs) \<le> 1"
proof (induction xs)
  case Nil
  then show ?case by simp
next
  case (Cons x xs)
  show ?case
  proof (cases "f x = k")
    case True
    with Cons.prems have "k \<notin> f ` set xs" by auto
    then have "filter (\<lambda>x. f x = k) xs = []" by (auto simp: filter_empty_conv)
    then show ?thesis using True by simp
  next
    case False
    then show ?thesis using Cons by simp
  qed
qed

lemma distinct_map_filter_one:
  assumes "distinct (map f xs)" and "k \<in> f ` set xs"
  shows "length (filter (\<lambda>x. f x = k) xs) = 1"
proof -
  from assms(2) have "filter (\<lambda>x. f x = k) xs \<noteq> []" by (auto simp: filter_empty_conv)
  then have "length (filter (\<lambda>x. f x = k) xs) \<noteq> 0" by simp
  with distinct_map_filter_le [OF assms(1), of k] show ?thesis by linarith
qed

lemma progress_of_key:
  "progress_of s u a = filter (\<lambda>r. (up_user_id r, up_activity_id r) = (u, a)) (user_progress s)"
  by (simp add: progress_of_def)

lemma progress_keys_found:
  assumes "progress_keys_ok (user_progress s)" and "fault E GetProgress = None"
  shows "(\<exists>p. found_progress E s u a = Some p \<and> up_id p \<noteq> 0) \<or>
         (found_progress E s u a = None \<and> progress_of s u a = [])"
proof -
  from assms(1) have d: "distinct (map (\<lambda>r. (up_user_id r, up_activity_id r)) (user_progress s))"
    and z: "0 \<notin> set (map up_id (user_progress s))"
    by (simp_all add: progress_keys_ok_def)
  from distinct_map_filter_le [OF d, of "(u, a)"]
  have l: "length (progress_of s u a) \<le> 1" by (simp add: progress_of_key)
  show ?thesis
  proof (cases "progress_of s u a")
    case Nil
    then show ?thesis by (simp add: found_progress_def assms(2))
  next
    case (Cons p ps)
    with l have q: "progress_of s u a = [p]" by simp
    then have f: "found_progress E s u a = Some p" by (simp add: found_progress_def assms(2))
    from found_progress_Some [OF f] z have "up_id p \<noteq> 0" by (metis image_eqI set_map)
    with f show ?thesis by simp
  qed
qed

text \<open>The update of the row found rewrites no key.\<close>

lemma update_found_keeps_keys:
  assumes f: "found_progress E s u a = Some p" and k: "progress_keys_ok (user_progress s)"
    and x: "x \<in> set (user_progress s)"
  shows "up_id ((if up_id x = up_id p \<and> up_user_id x = u then progressData u a c sc cp an t n x else x))
           = up_id x \<and>
         (up_user_id (if up_id x = up_id p \<and> up_user_id x = u then progressData u a c sc cp an t n x else x),
          up_activity_id (if up_id x = up_id p \<and> up_user_id x = u then progressData u a c sc cp an t n x else x))
           = (up_user_id x, up_activity_id x)"
proof (cases "up_id x = up_id p \<and> up_user_id x = u")
  case True
  from k have "inj_on up_id (set (user_progress s))"
    by (simp add: progress_keys_ok_def distinct_map)
  with True x found_progress_Some [OF f] have "x = p" by (auto dest: inj_onD)
  then show ?thesis using found_progress_Some [OF f] by (simp add: progressData_def)
next
  case False
  then show ?thesis by auto
qed

lemma writeProgress_keys:
  assumes w: "writeProgress E u a c sc cp an ts s = (res, s')"
    and nf: "fault E GetProgress = None"
    and k: "progress_keys_ok (user_progress s)"
  shows "progress_keys_ok (user_progress s') \<and>
         (\<lambda>r. (up_user_id r, up_activity_id r)) ` set (user_progress s)
            \<subseteq> (\<lambda>r. (up_user_id r, up_activity_id r)) ` set (user_progress s') \<and>
         (snd res = None \<longrightarrow> (u, a) \<in> (\<lambda>r. (up_user_id r, up_activity_id r)) ` set (user_progress s'))"
proof -
  show ?thesis
  proof (cases "found_progress E s u a")
    case (Some p)
    with progress_keys_found [OF k nf, of u a]
    have 1: "found_progress E s u a = Some p" "up_id p \<noteq> 0" by simp_all
    let ?g = "\<lambda>x. if up_id x = up_id p \<and> up_user_id x = u
                   then progressData u a c sc cp an (time_spent_of ts (Some p)) (now E) x else x"
    have ids: "map up_id (map ?g (user_progress s)) = map up_id (user_progress s)"
      using update_found_keeps_keys [OF 1(1) k] by (simp add: map_idI)
    have keys: "map (\<lambda>r. (up_user_id r, up_activity_id r)) (map ?g (user_progress s))
                  = map (\<lambda>r. (up_user_id r, up_activity_id r)) (user_progress s)"
      using update_found_keeps_keys [OF 1(1) k] by (simp add: map_idI)
    have mem: "(u, a) \<in> (\<lambda>r. (up_user_id r, up_activity_id r)) ` set (user_progress s)"
      using found_progress_Some [OF 1(1)] by force
    have tab: "user_progress s' = user_progress s \<or> user_progress s' = map ?g (user_progress s)"
      using w by (auto simp: writeProgress_update_path [OF 1] update_user_progress_def issue_def
          Let_def update_rows_def matches_simps split: option.splits)
    have ok: "progress_keys_ok (map ?g (user_progress s))"
      using k ids keys by (simp add: progress_keys_ok_def del: map_map)
    have img: "(\<lambda>r. (up_user_id r, up_activity_id r)) ` set (map ?g (user_progress s))
                 = (\<lambda>r. (up_user_id r, up_activity_id r)) ` set (user_progress s)"
      using arg_cong [OF keys, of set] by (simp only: set_map)
    from tab show ?thesis
    proof
      assume "user_progress s' = user_progress s"
      then show ?thesis using k mem by simp
    next
      assume "user_progress s' = map ?g (user_progress s)"
      then show ?thesis using ok img mem by simp
    qed
  next
    case None
    with progress_keys_found [OF k nf, of u a]
    have 2: "found_progress E s u a = None" "progress_of s u a = []" by simp_all
    let ?n = "progress_row u a c sc cp an (time_spent_of ts None) (now E)
                (next_id (map up_id (user_progress s)))"
    have wi: "writeProgress E u a c sc cp an ts s =
           insert_user_progress (fault E WriteProgress)
             (progress_row u a c sc cp an (time_spent_of ts (found_progress E s u a)) (now E))
             (issue (Select UserProgress [(''user_id'', Str u), (''activity_id'', Str a)]) s)"
      by (rule writeProgress_insert_path) (simp add: 2)
    have tab: "(snd res \<noteq> None \<and> user_progress s' = user_progress s) \<or>
               (snd res = None \<and> user_progress s' = user_progress s @ [?n])"
      using w unfolding wi
      by (auto simp: insert_user_progress_def issue_def Let_def 2 split: option.splits)
    have fresh: "(u, a) \<notin> (\<lambda>r. (up_user_id r, up_activity_id r)) ` set (user_progress s)"
      using 2(2) by (auto simp: progress_of_def filter_empty_conv)
    have n: "up_id ?n = next_id (map up_id (user_progress s))" "up_user_id ?n = u"
      "up_activity_id ?n = a"
      by (simp_all add: progress_row_def)
    have ok: "progress_keys_ok (user_progress s @ [?n])"
      using k fresh next_id_notin [of "map up_id (user_progress s)"]
        next_id_nonzero [of "map up_id (user_progress s)"]
      unfolding progress_keys_ok_def by (simp add: n image_iff)
    from tab show ?thesis
    proof
      assume "snd res \<noteq> None \<and> user_progress s' = user_progress s"
      then show ?thesis using k by auto
    next
      assume "snd res = None \<and> user_progress s' = user_progress s @ [?n]"
      then show ?thesis using ok n by auto
    qed
  qed
qed


lemma save_user_progress:
  assumes "saveActivityProgress E a sc cp an ts s = Some (res, s')"
  shows "user_progress s' = user_progress s \<or>
         (\<exists>u c s2. auth_user E = Some u \<and> user_progress s2 = user_progress s \<and>
            user_progress s' = user_progress (snd (writeProgress E u a c sc cp an ts s2)))"
proof (cases "\<exists>u act. client_throws E = None \<and> auth_error E = None \<and> auth_user E = Some u \<and>
     select_single (fault E GetActivity) act_col [(''id'', Str a)] (activities s) = (Some act, None)")
  case True
  then obtain u act where h: "client_throws E = None" "auth_error E = None" "auth_user E = Some u"
    "select_single (fault E GetActivity) act_col [(''id'', Str a)] (activities s) = (Some act, None)"
    by blast
  let ?s2 = "autoEnroll E u (act_course_id act) (issue (Select Activities [(''id'', Str a)]) s)"
  obtain r s3 where w: "writeProgress E u a (act_course_id act) sc cp an ts ?s2 = (r, s3)"
    by (metis prod.exhaust)
  have "s' = s3 \<or> updateCourseProgress E u (act_course_id act) s3 = Some s'"
    using assms h w
    by (auto simp: saveActivityProgress_def single_activities_def Let_def
        split: option.splits prod.splits)
  then have "user_progress s' = user_progress s3"
    using updateCourseProgress_frame by auto
  then have "user_progress s' = user_progress (snd (writeProgress E u a (act_course_id act) sc cp an ts ?s2))"
    by (simp add: w)
  moreover have "user_progress ?s2 = user_progress s" by (rule autoEnroll_issue_user_progress)
  ultimately show ?thesis using h(3) by blast
next
  case False
  then have "user_progress s' = user_progress s"
    using assms
    by (auto simp: saveActivityProgress_def single_activities_def Let_def issue_def select_single_def
        split: option.splits prod.splits if_splits list.splits)
  then show ?thesis by simp
qed

text \<open>The action always returns.\<close>

lemma saveActivityProgress_returns:
  "\<exists>res s'. saveActivityProgress E a sc cp an ts s = Some (res, s')"
proof -
  have "\<exists>s'. updateCourseProgress E u c s3 = Some s'" for u c s3
    by (rule updateCourseProgress_total)
  then show ?thesis
    by (auto simp: saveActivityProgress_def Let_def split: option.splits prod.splits)
       (metis option.distinct(1))+
qed

lemma progress_keys_ok_cong:
  "user_progress s2 = user_progress s \<Longrightarrow>
     progress_keys_ok (user_progress s2) = progress_keys_ok (user_progress s)"
  by simp

lemma save_keys:
  assumes sv: "saveActivityProgress E a sc cp an ts s = Some (res, s')"
    and nf: "fault E GetProgress = None"
    and k: "progress_keys_ok (user_progress s)"
  shows "progress_keys_ok (user_progress s') \<and>
         (\<lambda>r. (up_user_id r, up_activity_id r)) ` set (user_progress s)
            \<subseteq> (\<lambda>r. (up_user_id r, up_activity_id r)) ` set (user_progress s')"
proof -
  from save_user_progress [OF sv]
  show ?thesis
  proof
    assume "user_progress s' = user_progress s"
    then show ?thesis using k by simp
  next
    assume "\<exists>u c s2. auth_user E = Some u \<and> user_progress s2 = user_progress s \<and>
            user_progress s' = user_progress (snd (writeProgress E u a c sc cp an ts s2))"
    then obtain u c s2 where e: "user_progress s2 = user_progress s"
      "user_progress s' = user_progress (snd (writeProgress E u a c sc cp an ts s2))" by blast
    have k2: "progress_keys_ok (user_progress s2)" using k e(1) by simp
    obtain r s3 where w: "writeProgress E u a c sc cp an ts s2 = (r, s3)" by (metis prod.exhaust)
    from writeProgress_keys [OF w nf k2] show ?thesis by (simp add: e w)
  qed
qed

lemma save_Success_key:
  assumes sv: "saveActivityProgress E a sc cp an ts s = Some (Success rows, s')"
    and u: "auth_user E = Some u"
  shows "(u, a) \<in> (\<lambda>r. (up_user_id r, up_activity_id r)) ` set (user_progress s')"
proof -
  from save_Success_rows [OF sv u] obtain r where "r \<in> set rows" by (cases rows) auto
  with save_Success_rows [OF sv u]
  have "r \<in> set (user_progress s')" "up_user_id r = u" "up_activity_id r = a" by auto
  then show ?thesis by force
qed

lemma run_calls_keys:
  assumes "run_calls cs s = Some (rs, s')"
    and "progress_keys_ok (user_progress s)"
    and "\<forall>c\<in>set cs. fault (call_env c) GetProgress = None"
  shows "progress_keys_ok (user_progress s') \<and> length rs = length cs \<and>
         (\<lambda>r. (up_user_id r, up_activity_id r)) ` set (user_progress s)
            \<subseteq> (\<lambda>r. (up_user_id r, up_activity_id r)) ` set (user_progress s') \<and>
         (\<forall>i<length cs. \<forall>u rows.
            auth_user (call_env (cs ! i)) = Some u \<and> rs ! i = Success rows \<longrightarrow>
            (u, call_activityId (cs ! i))
              \<in> (\<lambda>r. (up_user_id r, up_activity_id r)) ` set (user_progress s'))"
  using assms
proof (induction cs arbitrary: s rs)
  case Nil
  then show ?case by simp
next
  case (Cons c cs)
  from Cons.prems(1) obtain r s1 rs1 where
    sv: "saveActivityProgress (call_env c) (call_activityId c) (call_score c)
             (call_completed c) (call_answers c) (call_timeSpent c) s = Some (r, s1)"
    and rest: "run_calls cs s1 = Some (rs1, s')" and rs: "rs = r # rs1"
    by (auto split: option.splits prod.splits)
  have nf: "fault (call_env c) GetProgress = None" using Cons.prems(3) by simp
  from save_keys [OF sv nf Cons.prems(2)]
  have k1: "progress_keys_ok (user_progress s1)"
    and sub1: "(\<lambda>r. (up_user_id r, up_activity_id r)) ` set (user_progress s)
            \<subseteq> (\<lambda>r. (up_user_id r, up_activity_id r)) ` set (user_progress s1)" by simp_all
  have nfs: "\<forall>c\<in>set cs. fault (call_env c) GetProgress = None" using Cons.prems(3) by simp
  from Cons.IH [OF rest k1 nfs]
  have k': "progress_keys_ok (user_progress s')" and len: "length rs1 = length cs"
    and sub2: "(\<lambda>r. (up_user_id r, up_activity_id r)) ` set (user_progress s1)
            \<subseteq> (\<lambda>r. (up_user_id r, up_activity_id r)) ` set (user_progress s')"
    and ih: "\<forall>i<length cs. \<forall>u rows.
            auth_user (call_env (cs ! i)) = Some u \<and> rs1 ! i = Success rows \<longrightarrow>
            (u, call_activityId (cs ! i))
              \<in> (\<lambda>r. (up_user_id r, up_activity_id r)) ` set (user_progress s')"
    by simp_all
  have here: "(u, call_activityId c) \<in> (\<lambda>r. (up_user_id r, up_activity_id r)) ` set (user_progress s')"
    if "auth_user (call_env c) = Some u" "r = Success rows" for u rows
    using save_Success_key [OF sv [unfolded that(2)] that(1)] sub2 by blast
  have all: "\<forall>i<length (c # cs). \<forall>u rows.
            auth_user (call_env ((c # cs) ! i)) = Some u \<and> rs ! i = Success rows \<longrightarrow>
            (u, call_activityId ((c # cs) ! i))
              \<in> (\<lambda>r. (up_user_id r, up_activity_id r)) ` set (user_progress s')"
  proof (intro allI impI)
    fix i u rows
    assume i: "i < length (c # cs)"
      and h: "auth_user (call_env ((c # cs) ! i)) = Some u \<and> rs ! i = Success rows"
    show "(u, call_activityId ((c # cs) ! i))
              \<in> (\<lambda>r. (up_user_id r, up_activity_id r)) ` set (user_progress s')"
    proof (cases i)
      case 0
      with h rs here show ?thesis by simp
    next
      case (Suc j)
      with i h rs ih show ?thesis by simp
    qed
  qed
  show ?case using k' len rs sub1 sub2 all by (simp only: length_Cons) blast
qed


subsection \<open>Statements and rows of other users\<close>


lemma autoEnroll_trace:
  "\<exists>t. trace (autoEnroll E u c s) = trace s @ t \<and> list_all (update_scope u) t \<and>
       filter is_progress_write t = []"
  by (auto simp: autoEnroll_def op_defs Let_def split: prod.splits option.splits)

lemma write_user_course_trace:
  "\<exists>t. trace (write_user_course E u c p a s) = trace s @ t \<and> list_all (update_scope u) t \<and>
       filter is_progress_write t = []"
  by (auto simp: write_user_course_def op_defs Let_def split: prod.splits option.splits)

lemma updateCourseProgress_trace:
  assumes "updateCourseProgress E u c s = Some s'"
  shows "\<exists>t. trace s' = trace s @ t \<and> list_all (update_scope u) t \<and>
       filter is_progress_write t = []"
proof -
  let ?s1 = "issue (Select Activities [(''course_id'', Str c), (''status'', Str ''published'')]) s"
  let ?s2 = "issue (Select UserProgress [(''user_id'', Str u), (''course_id'', Str c),
                 (''completed'', Bool True)]) ?s1"
  from assms consider "s' = ?s1" | "s' = ?s2" | p a where "s' = write_user_course E u c p a ?s2"
    by (auto simp: updateCourseProgress_eq Let_def split: if_splits)
  then show ?thesis
  proof cases
    case 1
    then show ?thesis by (simp add: issue_def)
  next
    case 2
    then show ?thesis by (simp add: issue_def)
  next
    case 3
    from write_user_course_trace [of E u c p a ?s2] obtain t where
      "trace (write_user_course E u c p a ?s2) = trace ?s2 @ t" "list_all (update_scope u) t"
      "filter is_progress_write t = []" by blast
    then show ?thesis using 3 by (simp add: issue_def)
  qed
qed

lemma writeProgress_trace:
  "\<exists>t. trace (snd (writeProgress E u a c sc cp an ts s)) = trace s @ t \<and>
       list_all (update_scope u) t \<and>
       filter is_progress_write t =
         (case found_progress E s u a of
            None \<Rightarrow> [Insert UserProgress]
          | Some p \<Rightarrow> if up_id p \<noteq> 0
                      then [Update UserProgress [(''id'', Num (up_id p)), (''user_id'', Str u)]]
                      else [Insert UserProgress])"
  by (auto simp: writeProgress_def single_user_progress_found update_user_progress_def
      insert_user_progress_def issue_def Let_def split: prod.splits option.splits)


lemma save_cases:
  assumes "saveActivityProgress E a sc cp an ts s = Some (res, s')"
  obtains (early) m where "s' = s" "res = Failure m"
        "client_throws E \<noteq> None \<or> auth_error E \<noteq> None \<or> auth_user E = None"
    | (no_activity) m where "s' = issue (Select Activities [(''id'', Str a)]) s" "res = Failure m"
    | (write_failed) u act d e where "auth_user E = Some u" "activity_of s a = [act]"
        "writeProgress E u a (act_course_id act) sc cp an ts
           (autoEnroll E u (act_course_id act) (issue (Select Activities [(''id'', Str a)]) s))
          = ((d, Some e), s')" "res = Failure (err_message e)"
    | (saved) u act rows s3 where "auth_user E = Some u" "activity_of s a = [act]"
        "writeProgress E u a (act_course_id act) sc cp an ts
           (autoEnroll E u (act_course_id act) (issue (Select Activities [(''id'', Str a)]) s))
          = ((Some rows, None), s3)"
        "updateCourseProgress E u (act_course_id act) s3 = Some s'" "res = Success rows"
proof (cases res)
  case (Success rows)
  from save_Success [OF assms [unfolded Success]] saved Success show thesis by metis
next
  case (Failure m)
  show thesis
  proof (cases "client_throws E \<noteq> None \<or> auth_error E \<noteq> None \<or> auth_user E = None")
    case True
    then have "s' = s" using assms
      by (auto simp: saveActivityProgress_def split: option.splits if_splits)
    then show thesis using early Failure True by blast
  next
    case False
    then obtain u where h: "client_throws E = None" "auth_error E = None" "auth_user E = Some u"
      by auto
    show thesis
    proof (cases "fst (select_single (fault E GetActivity) act_col [(''id'', Str a)] (activities s))")
      case None
      then have "s' = issue (Select Activities [(''id'', Str a)]) s" using assms h
        by (auto simp: saveActivityProgress_def single_activities_def Let_def
            split: option.splits prod.splits)
      then show thesis using no_activity Failure by blast
    next
      case (Some act)
      then have sel: "select_single (fault E GetActivity) act_col [(''id'', Str a)] (activities s)
                        = (Some act, None)"
        by (auto simp: select_single_def split: option.splits list.splits)
      then have ao: "activity_of s a = [act]"
        by (auto simp: select_single_cases matches_simps activity_of_def)
      let ?s2 = "autoEnroll E u (act_course_id act) (issue (Select Activities [(''id'', Str a)]) s)"
      obtain d err s3 where w:
        "writeProgress E u a (act_course_id act) sc cp an ts ?s2 = ((d, err), s3)"
        by (metis prod.exhaust)
      from assms h sel w Failure obtain e where "err = Some e" "s' = s3" "m = err_message e"
        by (auto simp: saveActivityProgress_def single_activities_def Let_def
            split: option.splits prod.splits)
      with write_failed [OF h(3) ao] w Failure show thesis by simp
    qed
  qed
qed

lemma writeProgress_others:
  "filter (\<lambda>r. up_user_id r \<noteq> u) (user_progress (snd (writeProgress E u a c sc cp an ts s)))
     = filter (\<lambda>r. up_user_id r \<noteq> u) (user_progress s)"
proof -
  have upd: "filter (\<lambda>r. up_user_id r \<noteq> u)
          (map (\<lambda>x. if up_id x = i \<and> up_user_id x = u then progressData u a c sc cp an t n x else x) xs)
        = filter (\<lambda>r. up_user_id r \<noteq> u) xs" for i t n xs
    by (rule filter_update_none) (simp_all add: progressData_def)
  show ?thesis
    by (auto simp: writeProgress_def single_user_progress_found update_user_progress_def
        insert_user_progress_def issue_def Let_def update_rows_def matches_simps upd
        progress_row_def split: prod.splits option.splits)
qed

lemma autoEnroll_others:
  "filter (\<lambda>r. uc_user_id r \<noteq> u) (user_courses (autoEnroll E u c s))
     = filter (\<lambda>r. uc_user_id r \<noteq> u) (user_courses s)"
  using autoEnroll_user_courses_cases [of E u c s] by (auto simp: enrollment_row_def)

lemma write_user_course_others:
  "filter (\<lambda>r. uc_user_id r \<noteq> u) (user_courses (write_user_course E u c p a s))
     = filter (\<lambda>r. uc_user_id r \<noteq> u) (user_courses s)"
proof -
  have upd: "filter (\<lambda>r. uc_user_id r \<noteq> u)
          (map (\<lambda>x. if uc_id x = i \<and> uc_user_id x = u then userCourseData p a n x else x) xs)
        = filter (\<lambda>r. uc_user_id r \<noteq> u) xs" for i n xs
    by (rule filter_update_none) (simp_all add: userCourseData_def)
  show ?thesis
    by (auto simp: write_user_course_def single_user_courses_found update_user_courses_def
        insert_user_courses_def issue_def Let_def update_rows_def matches_simps upd
        enrollment_row_def split: prod.splits option.splits)
qed

lemma updateCourseProgress_others:
  assumes "updateCourseProgress E u c s = Some s'"
  shows "filter (\<lambda>r. uc_user_id r \<noteq> u) (user_courses s')
     = filter (\<lambda>r. uc_user_id r \<noteq> u) (user_courses s)"
  using assms write_user_course_others
  by (auto simp: updateCourseProgress_eq Let_def issue_def split: if_splits)



lemma succeededE:
  assumes "succeeded x"
  obtains rows s where "x = Some (Success rows, s)"
  using assms by (cases x rule: succeeded.cases) auto

lemma new_stmts_append: "trace s' = trace s @ t \<Longrightarrow> new_stmts s s' = t"
  by (simp add: new_stmts_def)

lemma save_trace:
  assumes sv: "saveActivityProgress E a sc cp an ts s = Some (res, s')"
    and u: "auth_user E = Some u"
  shows "\<exists>t. trace s' = trace s @ t \<and> list_all (update_scope u) t \<and>
           (\<forall>rows. res = Success rows \<longrightarrow>
              filter is_progress_write t =
                (case found_progress E s u a of
                   None \<Rightarrow> [Insert UserProgress]
                 | Some p \<Rightarrow> if up_id p \<noteq> 0
                      then [Update UserProgress [(''id'', Num (up_id p)), (''user_id'', Str u)]]
                      else [Insert UserProgress]))"
  using sv
proof (cases rule: save_cases)
  case (early m)
  then show ?thesis by simp
next
  case (no_activity m)
  then show ?thesis by (simp add: issue_def)
next
  case (write_failed v act d e)
  with u have vu: "v = u" by simp
  let ?s1 = "issue (Select Activities [(''id'', Str a)]) s"
  from autoEnroll_trace [of E u "act_course_id act" ?s1] obtain t1 where
    t1: "trace (autoEnroll E u (act_course_id act) ?s1) = trace ?s1 @ t1"
      "list_all (update_scope u) t1" by blast
  from writeProgress_trace [of E u a "act_course_id act" sc cp an ts
      "autoEnroll E u (act_course_id act) ?s1"] write_failed(3) [unfolded vu]
  obtain t2 where t2: "trace s' = trace (autoEnroll E u (act_course_id act) ?s1) @ t2"
      "list_all (update_scope u) t2" by auto
  show ?thesis using t1 t2 write_failed(4) by (simp add: issue_def)
next
  case (saved v act rows s3)
  with u have vu: "v = u" by simp
  let ?s1 = "issue (Select Activities [(''id'', Str a)]) s"
  let ?s2 = "autoEnroll E u (act_course_id act) ?s1"
  from autoEnroll_trace [of E u "act_course_id act" ?s1] obtain t1 where
    t1: "trace ?s2 = trace ?s1 @ t1" "list_all (update_scope u) t1"
      "filter is_progress_write t1 = []" by blast
  have fp: "found_progress E ?s2 u a = found_progress E s u a"
    by (rule found_progress_cong) (rule autoEnroll_issue_user_progress)
  from writeProgress_trace [of E u a "act_course_id act" sc cp an ts ?s2]
    saved(3) [unfolded vu]
  obtain t2 where t2: "trace s3 = trace ?s2 @ t2" "list_all (update_scope u) t2"
      "filter is_progress_write t2 =
         (case found_progress E s u a of
            None \<Rightarrow> [Insert UserProgress]
          | Some p \<Rightarrow> if up_id p \<noteq> 0
                      then [Update UserProgress [(''id'', Num (up_id p)), (''user_id'', Str u)]]
                      else [Insert UserProgress])"
    unfolding fp by auto
  from updateCourseProgress_trace [OF saved(4) [unfolded vu]] obtain t3 where
    t3: "trace s' = trace s3 @ t3" "list_all (update_scope u) t3"
      "filter is_progress_write t3 = []" by blast
  have "trace s' = trace s @ (Select Activities [(''id'', Str a)] # t1 @ t2 @ t3)"
    using t1(1) t2(1) t3(1) by (simp add: issue_def)
  moreover have "list_all (update_scope u) (Select Activities [(''id'', Str a)] # t1 @ t2 @ t3)"
    using t1(2) t2(2) t3(2) by simp
  moreover have "filter is_progress_write (Select Activities [(''id'', Str a)] # t1 @ t2 @ t3)
      = (case found_progress E s u a of
            None \<Rightarrow> [Insert UserProgress]
          | Some p \<Rightarrow> if up_id p \<noteq> 0
                      then [Update UserProgress [(''id'', Num (up_id p)), (''user_id'', Str u)]]
                      else [Insert UserProgress])"
    using t1(3) t2(3) t3(3) by simp
  ultimately show ?thesis by blast
qed

lemma save_others:
  assumes sv: "saveActivityProgress E a sc cp an ts s = Some (res, s')"
    and u: "auth_user E = Some u"
  shows "filter (\<lambda>r. up_user_id r \<noteq> u) (user_progress s')
           = filter (\<lambda>r. up_user_id r \<noteq> u) (user_progress s) \<and>
         filter (\<lambda>r. uc_user_id r \<noteq> u) (user_courses s')
           = filter (\<lambda>r. uc_user_id r \<noteq> u) (user_courses s) \<and>
         activities s' = activities s"
  using sv
proof (cases rule: save_cases)
  case (early m)
  then show ?thesis by simp
next
  case (no_activity m)
  then show ?thesis by (simp add: issue_def)
next
  case (write_failed v act d e)
  with u have vu: "v = u" by simp
  let ?s1 = "issue (Select Activities [(''id'', Str a)]) s"
  let ?s2 = "autoEnroll E u (act_course_id act) ?s1"
  have s': "s' = snd (writeProgress E u a (act_course_id act) sc cp an ts ?s2)"
    using write_failed(3) [unfolded vu] by simp
  show ?thesis unfolding s'
    by (simp add: writeProgress_others writeProgress_user_courses writeProgress_activities
        autoEnroll_others autoEnroll_activities autoEnroll_user_progress)
       (simp add: issue_def)
next
  case (saved v act rows s3)
  with u have vu: "v = u" by simp
  let ?s1 = "issue (Select Activities [(''id'', Str a)]) s"
  let ?s2 = "autoEnroll E u (act_course_id act) ?s1"
  have s3: "s3 = snd (writeProgress E u a (act_course_id act) sc cp an ts ?s2)"
    using saved(3) [unfolded vu] by simp
  have a: "filter (\<lambda>r. up_user_id r \<noteq> u) (user_progress s3)
           = filter (\<lambda>r. up_user_id r \<noteq> u) (user_progress s) \<and>
         filter (\<lambda>r. uc_user_id r \<noteq> u) (user_courses s3)
           = filter (\<lambda>r. uc_user_id r \<noteq> u) (user_courses s) \<and>
         activities s3 = activities s"
    unfolding s3
    by (simp add: writeProgress_others writeProgress_user_courses writeProgress_activities
        autoEnroll_others autoEnroll_activities autoEnroll_user_progress)
       (simp add: issue_def)
  from updateCourseProgress_frame [OF saved(4)] updateCourseProgress_others [OF saved(4) [unfolded vu]] a
  show ?thesis by simp
qed


subsection \<open>Percentages and averages between 0 and 100\<close>


lemma Math_round_range:
  assumes "0 \<le> x" and "x \<le> 100"
  shows "0 \<le> Math_round x \<and> Math_round x \<le> 100"
proof -
  have "0 \<le> \<lfloor>x + 1 / 2\<rfloor>" using assms(1) by (simp add: zero_le_floor)
  moreover have "x + 1 / 2 < of_int (101::int)" using assms(2) by simp
  then have "\<lfloor>x + 1 / 2\<rfloor> < 101" by (simp only: floor_less_iff)
  ultimately show ?thesis by (simp add: Math_round_def)
qed

lemma fl_range_100:
  assumes "0 \<le> x" and "x \<le> 100"
  shows "0 \<le> fl x \<and> fl x \<le> 100"
  using fl_nonneg [OF assms(1)] fl_mono [OF assms(2)] by (simp add: fl_numeral_100)

lemma progressPercentage_range:
  assumes "n \<le> t" and "0 < t"
  shows "\<exists>p. progressPercentage n t = Some p \<and> 0 \<le> p \<and> p \<le> 100"
proof -
  let ?q = "fl (of_nat n / of_nat t)"
  have "(0::rat) \<le> of_nat n / of_nat t" by simp
  then have q0: "0 \<le> ?q" by (rule fl_nonneg)
  have "(of_nat n :: rat) / of_nat t \<le> 1" using assms by (simp add: divide_le_eq_1)
  then have "?q \<le> fl 1" by (rule fl_mono)
  then have q1: "?q \<le> 1" by (simp add: fl_one)
  have "0 \<le> ?q * 100" "?q * 100 \<le> 100" using q0 q1 by simp_all
  then have "0 \<le> fl (?q * 100) \<and> fl (?q * 100) \<le> 100" by (rule fl_range_100)
  then have "0 \<le> Math_round (fl (?q * 100)) \<and> Math_round (fl (?q * 100)) \<le> 100"
    by (intro Math_round_range) simp_all
  then show ?thesis using assms(2) by (simp add: progressPercentage_Some js_mul_def)
qed

lemma totalScore_fold_range:
  assumes "\<forall>r\<in>set rows. 0 \<le> up_score r \<and> up_score r \<le> 100"
    and "0 \<le> acc" and "acc \<le> of_nat (100 * k)"
    and "100 * (k + length rows) \<le> 2 ^ 53"
  shows "0 \<le> foldl (\<lambda>sum a. js_add sum (of_int (up_score a))) acc rows \<and>
         foldl (\<lambda>sum a. js_add sum (of_int (up_score a))) acc rows
           \<le> of_nat (100 * (k + length rows))"
  using assms
proof (induction rows arbitrary: acc k)
  case Nil
  then show ?case by simp
next
  case (Cons r rows)
  let ?acc = "js_add acc (of_int (up_score r))"
  have r: "0 \<le> up_score r" "up_score r \<le> 100" using Cons.prems(1) by simp_all
  have lo: "0 \<le> acc + of_int (up_score r)" using Cons.prems(2) r(1) by simp
  have "(of_int (up_score r) :: rat) \<le> of_int 100" using r(2) by (simp only: of_int_le_iff)
  then have "acc + of_int (up_score r) \<le> of_nat (100 * k) + 100" using Cons.prems(3) by simp
  then have hi: "acc + of_int (up_score r) \<le> of_nat (100 * (k + 1))" by simp
  have rep: "100 * (k + 1) \<le> (2::nat) ^ 53" using Cons.prems(4) by simp
  have a0: "0 \<le> ?acc" unfolding js_add_def using lo by (rule fl_nonneg)
  have "?acc \<le> fl (of_nat (100 * (k + 1)))" unfolding js_add_def using hi by (rule fl_mono)
  then have a1: "?acc \<le> of_nat (100 * (k + 1))" by (simp only: fl_of_nat [OF rep])
  have rows: "\<forall>r\<in>set rows. 0 \<le> up_score r \<and> up_score r \<le> 100" using Cons.prems(1) by simp
  have rep': "100 * ((k + 1) + length rows) \<le> (2::nat) ^ 53" using Cons.prems(4) by simp
  from Cons.IH [OF rows a0 a1 rep'] show ?case by simp
qed

lemma averageScore_range:
  assumes "\<forall>r\<in>set rows. 0 \<le> up_score r \<and> up_score r \<le> 100"
    and "length rows < 2 ^ 32"
  shows "\<exists>a. averageScore rows = Some a \<and> 0 \<le> a \<and> a \<le> 100"
proof (cases "length rows = 0")
  case True
  then show ?thesis by (simp add: averageScore_def)
next
  case False
  let ?n = "length rows"
  have "100 * ?n < 100 * 2 ^ 32" using assms(2) by simp
  also have "\<dots> \<le> (2::nat) ^ 53" by simp
  finally have rep: "100 * (0 + ?n) \<le> (2::nat) ^ 53" by simp
  from totalScore_fold_range [OF assms(1) _ _ rep, of 0]
  have t: "0 \<le> totalScore rows" "totalScore rows \<le> of_nat (100 * ?n)"
    using False by (simp_all add: totalScore_def)
  have n0: "(0::rat) < of_nat ?n" using False by simp
  have "0 \<le> totalScore rows / of_nat ?n" using t(1) n0 by simp
  moreover have "totalScore rows / of_nat ?n \<le> 100"
    using t(2) n0 by (simp add: pos_divide_le_eq)
  ultimately have "0 \<le> fl (totalScore rows / of_nat ?n) \<and> fl (totalScore rows / of_nat ?n) \<le> 100"
    by (rule fl_range_100)
  then have "0 \<le> Math_round (fl (totalScore rows / of_nat ?n)) \<and>
             Math_round (fl (totalScore rows / of_nat ?n)) \<le> 100"
    by (intro Math_round_range) simp_all
  then show ?thesis using False by (simp add: averageScore_def js_div_def)
qed


lemma autoEnroll_new_rows:
  assumes "r \<in> set (user_courses (autoEnroll E u c s))"
  shows "r \<in> set (user_courses s) \<or> enrollment_in_range r"
  using assms autoEnroll_user_courses_cases [of E u c s]
  by (auto simp: enrollment_in_range_def enrollment_row_def)

lemma write_user_course_new_rows:
  assumes "r \<in> set (user_courses (write_user_course E u c p a s))"
    and "0 \<le> p" "p \<le> 100" "0 \<le> a" "a \<le> 100"
  shows "r \<in> set (user_courses s) \<or> enrollment_in_range r"
  using assms
  by (auto simp: write_user_course_def single_user_courses_found update_user_courses_def
      insert_user_courses_def issue_def Let_def update_rows_def enrollment_in_range_def
      enrollment_row_def userCourseData_def split: prod.splits option.splits if_splits)

lemma updateCourseProgress_new_rows:
  assumes run: "updateCourseProgress E u c s = Some s'"
    and sc: "\<forall>r\<in>set (completed_of s u c). 0 \<le> up_score r \<and> up_score r \<le> 100"
    and le: "length (completed_of s u c) \<le> length (published_of s c)"
    and sz: "length (published_of s c) < 2 ^ 32"
    and r: "r \<in> set (user_courses s')"
  shows "r \<in> set (user_courses s) \<or> enrollment_in_range r"
proof -
  let ?s1 = "issue (Select Activities [(''course_id'', Str c), (''status'', Str ''published'')]) s"
  let ?s2 = "issue (Select UserProgress [(''user_id'', Str u), (''course_id'', Str c),
                 (''completed'', Bool True)]) ?s1"
  let ?p = "Math_round (js_mul (fl (of_nat (length (completed_of s u c)) /
                    of_nat (length (published_of s c)))) 100)"
  have uc: "user_courses ?s1 = user_courses s" "user_courses ?s2 = user_courses s"
    by (simp_all add: issue_def)
  from run consider "s' = ?s1" | "s' = ?s2"
    | "published_of s c \<noteq> []"
      "s' = write_user_course E u c ?p (the (averageScore (completed_of s u c))) ?s2"
    by (auto simp: updateCourseProgress_eq Let_def split: if_splits)
  then show ?thesis
  proof cases
    case 1
    then show ?thesis using r uc by simp
  next
    case 2
    then show ?thesis using r uc by simp
  next
    case 3
    from 3(1) have t0: "0 < length (published_of s c)" by simp
    from progressPercentage_range [OF le t0]
    have p: "0 \<le> ?p" "?p \<le> 100" using t0 by (simp_all add: progressPercentage_Some)
    have "length (completed_of s u c) < 2 ^ 32" using le sz by simp
    from averageScore_range [OF sc this] obtain a where
      a: "averageScore (completed_of s u c) = Some a" "0 \<le> a" "a \<le> 100" by blast
    from r 3(2) a(1) have "r \<in> set (user_courses (write_user_course E u c ?p a ?s2))" by simp
    from write_user_course_new_rows [OF this p a(2,3)] show ?thesis by (simp add: uc)
  qed
qed



lemma completed_of_cong:
  "user_progress s2 = user_progress s \<Longrightarrow> completed_of s2 u c = completed_of s u c"
  by (simp add: completed_of_def)

lemma published_of_cong:
  "activities s2 = activities s \<Longrightarrow> published_of s2 c = published_of s c"
  by (simp add: published_of_def)

lemma autoEnroll_issue_new_rows:
  assumes "r \<in> set (user_courses (autoEnroll E u c (issue q s)))"
  shows "r \<in> set (user_courses s) \<or> enrollment_in_range r"
  using autoEnroll_new_rows [OF assms] by (simp add: issue_def)


subsection \<open>The aggregator after an auto-enrollment\<close>

lemma write_user_course_after_enroll:
  assumes tab: "user_courses s = old @ [enrollment_row u c p0 a0 (now E) i]"
    and fresh: "i \<notin> set (map uc_id old)" and nz: "i \<noteq> 0"
    and none: "filter (\<lambda>r. uc_user_id r = u \<and> uc_course_id r = c) old = []"
    and nf: "fault E AggUserCourse = None"
  shows "user_courses (write_user_course E u c p a s) = old @ [enrollment_row u c p0 a0 (now E) i] \<or>
         user_courses (write_user_course E u c p a s) = old @ [enrollment_row u c p a (now E) i]"
proof -
  let ?row = "enrollment_row u c p0 a0 (now E) i"
  have e: "enrollments_of s u c = [?row]"
    using none by (simp add: enrollments_of_def tab enrollment_row_def)
  then have f: "found_enrollment E s u c = Some ?row" by (simp add: found_enrollment_def nf)
  have id: "uc_id ?row \<noteq> 0" using nz by (simp add: enrollment_row_def)
  have old: "map (\<lambda>x. if uc_id x = i \<and> uc_user_id x = u then userCourseData p a (now E) x else x) old
               = old"
    using fresh by (intro map_idI) auto
  have row: "uc_id ?row = i" "uc_user_id ?row = u" by (simp_all add: enrollment_row_def)
  have upd: "update_rows uc_col [(''id'', Num (uc_id ?row)), (''user_id'', Str u)]
               (userCourseData p a (now E)) (old @ [?row])
             = old @ [userCourseData p a (now E) ?row]"
    by (simp add: update_rows_def matches_simps row old)
  have "user_courses (write_user_course E u c p a s) = old @ [?row] \<or>
        user_courses (write_user_course E u c p a s)
          = old @ [userCourseData p a (now E) ?row]"
    unfolding write_user_course_update_path [OF f id]
    by (cases "fault E AggWriteUserCourse")
       (simp_all add: update_user_courses_def issue_def Let_def tab upd)
  moreover have "userCourseData p a (now E) ?row = enrollment_row u c p a (now E) i"
    by (simp add: userCourseData_def enrollment_row_def)
  ultimately show ?thesis by simp
qed

lemma updateCourseProgress_after_enroll:
  assumes run: "updateCourseProgress E u c s = Some s'"
    and tab: "user_courses s = old @ [enrollment_row u c p0 a0 (now E) i]"
    and fresh: "i \<notin> set (map uc_id old)" and nz: "i \<noteq> 0"
    and none: "filter (\<lambda>r. uc_user_id r = u \<and> uc_course_id r = c) old = []"
    and nf: "fault E AggUserCourse = None"
  shows "\<exists>p' a'. user_courses s' = old @ [enrollment_row u c p' a' (now E) i] \<and>
           (p' = p0 \<and> a' = a0 \<or>
            progressPercentage (completedCount s u c) (totalActivities s c) = Some p' \<and>
            averageScore (completed_of s u c) = Some a')"
proof -
  let ?s1 = "issue (Select Activities [(''course_id'', Str c), (''status'', Str ''published'')]) s"
  let ?s2 = "issue (Select UserProgress [(''user_id'', Str u), (''course_id'', Str c),
                 (''completed'', Bool True)]) ?s1"
  have uc: "user_courses ?s1 = user_courses s" "user_courses ?s2 = user_courses s"
    by (simp_all add: issue_def)
  obtain a where a: "averageScore (completed_of s u c) = Some a" using averageScore_Some by blast
  from run consider "s' = ?s1" | "s' = ?s2"
    | p where "s' = write_user_course E u c p a ?s2"
        "progressPercentage (completedCount s u c) (totalActivities s c) = Some p"
    by (auto simp: updateCourseProgress_eq Let_def a progressPercentage_Some completedCount_def
        totalActivities_def split: if_splits)
  then show ?thesis
  proof cases
    case 1
    then show ?thesis using tab uc by auto
  next
    case 2
    then show ?thesis using tab uc by auto
  next
    case 3
    have "user_courses ?s2 = old @ [enrollment_row u c p0 a0 (now E) i]" using tab uc by simp
    from write_user_course_after_enroll [OF this fresh nz none nf, of p a] 3 a
    show ?thesis by auto
  qed
qed


lemma writeProgress_trace_prefix:
  "\<exists>t. trace (snd (writeProgress E u a c sc cp an ts s)) = trace s @ t"
  using writeProgress_trace [of E u a c sc cp an ts s] by blast


section \<open>The properties\<close>

text \<open>
  C1 (as amended). When the aggregator runs for a course with a published activity, none of
  its four round trips faults, and the table holds at most one enrollment row of the pair
  (with a non-zero id), the pair has exactly one enrollment row afterwards; its progress is
  \<^verbatim>\<open>Math.round((completedCount / totalActivities) * 100)\<close> and its score
  \<^verbatim>\<open>Math.round(totalScore / completedCount)\<close> (0 without a completed row), both in
  binary64 arithmetic, where \<open>completedCount\<close> counts the user's progress rows of the
  course with \<open>completed = true\<close>, whether their activity is published or not.
  In exact terms: the progress is \<open>100 \<times> completedCount / totalActivities\<close> rounded half
  up, provided \<open>completedCount \<le> totalActivities\<close> and the quotient is not exactly
  half-way between two integers; the score is the exact average rounded half up when the
  scores are between 0 and 100.
\<close>

theorem aggregator_writes_rounded_ratio:
  assumes "published_of s c \<noteq> []"
    and "fault E AggActivities = None" and "fault E AggCompleted = None"
    and "fault E AggUserCourse = None" and "fault E AggWriteUserCourse = None"
    and "enrollments_of s u c = [] \<or> (\<exists>r. enrollments_of s u c = [r] \<and> uc_id r \<noteq> 0)"
  shows "\<exists>s' r. updateCourseProgress E u c s = Some s' \<and> enrollments_of s' u c = [r] \<and>
           progressPercentage (completedCount s u c) (totalActivities s c)
             = Some (uc_progress r) \<and>
           averageScore (completed_of s u c) = Some (uc_score r) \<and>
           (completedCount s u c \<le> totalActivities s c \<and> totalActivities s c < 2 ^ 32 \<and>
            \<not> 2 * totalActivities s c dvd 200 * completedCount s u c + totalActivities s c \<longrightarrow>
              uc_progress r
                = \<lfloor>100 * rat_of_nat (completedCount s u c) / rat_of_nat (totalActivities s c)
                     + 1 / 2\<rfloor>) \<and>
           (completedCount s u c = 0 \<longrightarrow> uc_score r = 0) \<and>
           (0 < completedCount s u c \<and> completedCount s u c < 2 ^ 32 \<and>
            (\<forall>x\<in>set (completed_of s u c). 0 \<le> up_score x \<and> up_score x \<le> 100) \<longrightarrow>
              uc_score r
                = \<lfloor>rat_of_int (sum_list (map up_score (completed_of s u c)))
                       / rat_of_nat (completedCount s u c) + 1 / 2\<rfloor>)"
proof -
  let ?s2 = "issue (Select UserProgress [(''user_id'', Str u), (''course_id'', Str c),
                 (''completed'', Bool True)])
              (issue (Select Activities [(''course_id'', Str c), (''status'', Str ''published'')]) s)"
  let ?n = "length (completed_of s u c)"
  let ?t = "length (published_of s c)"
  let ?p = "Math_round (js_mul (fl (of_nat ?n / of_nat ?t)) 100)"
  obtain a where a: "averageScore (completed_of s u c) = Some a"
    using averageScore_Some by blast
  have e: "enrollments_of ?s2 u c = enrollments_of s u c"
    by (simp add: enrollments_of_def issue_def)
  have run: "updateCourseProgress E u c s = Some (write_user_course E u c ?p a ?s2)"
    using assms(1-3) by (simp add: updateCourseProgress_eq Let_def a)
  from write_user_course_enrollment [of E ?s2 u c ?p a] assms(4-6) e
  obtain r where r: "enrollments_of (write_user_course E u c ?p a ?s2) u c = [r]"
    "uc_progress r = ?p" "uc_score r = a" by auto
  have t0: "0 < ?t" using assms(1) by simp
  have p: "progressPercentage ?n ?t = Some (uc_progress r)"
    using t0 by (simp add: progressPercentage_Some r(2))
  have exact_p: "uc_progress r = \<lfloor>100 * rat_of_nat ?n / rat_of_nat ?t + 1 / 2\<rfloor>"
    if "?n \<le> ?t" "?t < 2 ^ 32" "\<not> 2 * ?t dvd 200 * ?n + ?t"
    using progressPercentage_exact [OF that(1) t0 that(2,3)] p by simp
  have zero: "uc_score r = 0" if "?n = 0"
    using that a r(3) by (simp add: averageScore_def)
  have exact_a: "uc_score r
                = \<lfloor>rat_of_int (sum_list (map up_score (completed_of s u c))) / rat_of_nat ?n + 1 / 2\<rfloor>"
    if "0 < ?n" "?n < 2 ^ 32" "\<forall>x\<in>set (completed_of s u c). 0 \<le> up_score x \<and> up_score x \<le> 100"
  proof -
    from that(1) have "completed_of s u c \<noteq> []" by simp
    from averageScore_exact [OF that(3) this that(2)] a r(3) show ?thesis by simp
  qed
  show ?thesis
    unfolding completedCount_def totalActivities_def
    using run r(1) p a r(3) exact_p zero exact_a by (intro exI [of _ r] exI conjI impI) auto
qed

theorem aggregator_writes_rounded_ratio_witness:
  "published_of db_three_done ''c1'' \<noteq> [] \<and>
   fault env_ok AggActivities = None \<and> fault env_ok AggCompleted = None \<and>
   fault env_ok AggUserCourse = None \<and> fault env_ok AggWriteUserCourse = None \<and>
   (\<exists>r. enrollments_of db_three_done ''u1'' ''c1'' = [r] \<and> uc_id r \<noteq> 0) \<and>
   (\<exists>s' r. updateCourseProgress env_ok ''u1'' ''c1'' db_three_done = Some s' \<and>
      enrollments_of s' ''u1'' ''c1'' = [r] \<and> uc_progress r = 75 \<and> uc_score r = 90)"
proof -
  have h1: "published_of db_three_done ''c1'' \<noteq> []"
    by (simp add: published_of_def db_three_done_def db_empty_def)
  have h2: "fault env_ok AggActivities = None" "fault env_ok AggCompleted = None"
    "fault env_ok AggUserCourse = None" "fault env_ok AggWriteUserCourse = None"
    by (simp_all add: env_ok_def)
  have h3: "\<exists>r. enrollments_of db_three_done ''u1'' ''c1'' = [r] \<and> uc_id r \<noteq> 0"
    by (simp add: enrollments_of_def db_three_done_def db_empty_def enrollment_row_def)
  from h3 have h3': "enrollments_of db_three_done ''u1'' ''c1'' = [] \<or>
      (\<exists>r. enrollments_of db_three_done ''u1'' ''c1'' = [r] \<and> uc_id r \<noteq> 0)" by simp
  have n: "completedCount db_three_done ''u1'' ''c1'' = 3" by code_simp
  have t: "totalActivities db_three_done ''c1'' = 4" by code_simp
  have sc: "\<forall>x\<in>set (completed_of db_three_done ''u1'' ''c1''). 0 \<le> up_score x \<and> up_score x \<le> 100"
    by (simp add: completed_of_def db_three_done_def db_empty_def progress_row_def)
  have sm: "sum_list (map up_score (completed_of db_three_done ''u1'' ''c1'')) = 270"
    by (simp add: completed_of_def db_three_done_def db_empty_def progress_row_def)
  have nd: "\<not> (2 * 4 :: nat) dvd 200 * 3 + 4" by simp
  have v1: "\<lfloor>100 * rat_of_nat 3 / rat_of_nat 4 + 1 / 2\<rfloor> = 75" by code_simp
  have v2: "\<lfloor>rat_of_int 270 / rat_of_nat 3 + 1 / 2\<rfloor> = 90" by code_simp
  from aggregator_writes_rounded_ratio [OF h1 h2 h3'] obtain s' r where
    "updateCourseProgress env_ok ''u1'' ''c1'' db_three_done = Some s'"
    "enrollments_of s' ''u1'' ''c1'' = [r]" "uc_progress r = 75" "uc_score r = 90"
    unfolding n t sm using sc nd v1 v2 by auto
  then have "\<exists>s' r. updateCourseProgress env_ok ''u1'' ''c1'' db_three_done = Some s' \<and>
      enrollments_of s' ''u1'' ''c1'' = [r] \<and> uc_progress r = 75 \<and> uc_score r = 90"
    by blast
  with h1 h2 h3 show ?thesis by (intro conjI)
qed

text \<open>
  C1 as stated fails: a completed row of a draft activity counts. With one published and one
  draft activity completed out of four published, the aggregator writes 50, and the
  specification's formula gives 25.
\<close>

theorem aggregator_counts_unpublished_counterexample:
  "map_option (map uc_progress \<circ> user_courses)
     (updateCourseProgress env_ok ''u1'' ''c1'' db_draft_done) = Some [50] \<and>
   spec_progressPercentage db_draft_done ''u1'' ''c1'' = 25"
  by code_simp

text \<open>
  At a tie the two roundings of the product can fall below the half: 23 of 40 is 57.5 exactly,
  and the aggregator writes 57.
\<close>

lemma tie_rounds_down_example:
  "progressPercentage 23 40 = Some 57 \<and> \<lfloor>100 * rat_of_nat 23 / rat_of_nat 40 + 1 / 2\<rfloor> = 58"
  by code_simp

text \<open>
  C2 as stated fails: a supplied \<open>timeSpent\<close> of 0 is falsy, so the prior row's 30 seconds
  are stored, not the 0 the caller supplied.
\<close>

theorem zero_time_spent_keeps_prior_counterexample:
  "map_option (map up_time_spent \<circ> user_progress \<circ> snd)
     (saveActivityProgress env_ok ''a1'' 80 True None (Some 0) db_three_done) = Some [30, 40, 50]"
  by code_simp

text \<open>
  C2 (as amended). Every row a successful save writes is in the progress table afterwards and
  its time-spent is the supplied \<open>timeSpent\<close> when that is not 0; when \<open>timeSpent\<close> is
  omitted or 0, it is the stored value of the prior row, provided the lookup found one
  (it did not fault and exactly one row of the table is the pair's), and 0 otherwise.
\<close>

theorem stored_time_spent:
  assumes "saveActivityProgress E activityId score completed answers timeSpent s
             = Some (Success rows, s')"
    and "auth_user E = Some u"
  shows "rows \<noteq> [] \<and>
         (\<forall>r\<in>set rows. r \<in> set (user_progress s') \<and>
            (\<forall>t. timeSpent = Some t \<and> t \<noteq> 0 \<longrightarrow> up_time_spent r = t) \<and>
            (timeSpent = None \<or> timeSpent = Some 0 \<longrightarrow>
               (\<forall>p. found_progress E s u activityId = Some p \<longrightarrow> up_time_spent r = up_time_spent p) \<and>
               (found_progress E s u activityId = None \<longrightarrow> up_time_spent r = 0)))"
  using save_Success_rows [OF assms]
  by (auto simp: time_spent_of_def split: option.splits)

theorem stored_time_spent_witness:
  "auth_user env_ok = Some ''u1'' \<and>
   (\<exists>rows s'. saveActivityProgress env_ok ''a1'' 85 True None None db_three_done
                 = Some (Success rows, s') \<and>
      rows \<noteq> [] \<and> (\<forall>r\<in>set rows. r \<in> set (user_progress s') \<and> up_time_spent r = 30))"
proof -
  have u: "auth_user env_ok = Some ''u1''" by (simp add: env_ok_def)
  have "succeeded (saveActivityProgress env_ok ''a1'' 85 True None None db_three_done)"
    by code_simp
  then obtain rows s' where
    sv: "saveActivityProgress env_ok ''a1'' 85 True None None db_three_done = Some (Success rows, s')"
    by (rule succeededE)
  have f: "found_progress env_ok db_three_done ''u1'' ''a1''
             = Some (progress_row ''u1'' ''a1'' ''c1'' 80 True None 30 ''2024-12-24'' 1)"
    by code_simp
  from stored_time_spent [OF sv u] f
  have "rows \<noteq> [] \<and> (\<forall>r\<in>set rows. r \<in> set (user_progress s') \<and> up_time_spent r = 30)"
    by (simp add: progress_row_def)
  with sv u show ?thesis by blast
qed

text \<open>
  C3 as stated fails: when the lookup of the existing row faults, the action logs the error
  and inserts. Two successful saves of the same pair, the second with a faulting lookup, leave
  two progress rows.
\<close>

theorem second_insert_after_lookup_fault_counterexample:
  "map_option (map is_success \<circ> fst)
     (run_calls [call_a1 env_ok, call_a1 env_lookup_fault] db_empty) = Some [True, True] \<and>
   map_option (progress_count ''u1'' ''a1'' \<circ> snd)
     (run_calls [call_a1 env_ok, call_a1 env_lookup_fault] db_empty) = Some 2"
  by code_simp

text \<open>
  C3 (as amended). Let the progress table have distinct non-zero ids and at most one row per
  (user, activity), and let no lookup of the existing row fault. Then after any run of
  calls the table still has these properties, and every pair for which a call of the run
  succeeded has exactly one row. In a successful call the only write to the progress table
  is, when the lookup found a row (of non-zero id), one update filtered by that row's id and
  the user id, and one insert otherwise.
\<close>

theorem one_progress_row_per_pair:
  assumes "run_calls cs s = Some (rs, s')"
    and "progress_keys_ok (user_progress s)"
    and "\<forall>c\<in>set cs. fault (call_env c) GetProgress = None"
  shows "progress_keys_ok (user_progress s') \<and>
         (\<forall>i<length cs. \<forall>u rows.
            auth_user (call_env (cs ! i)) = Some u \<and> rs ! i = Success rows \<longrightarrow>
            length (progress_of s' u (call_activityId (cs ! i))) = 1) \<and>
         (\<forall>E a sc cp an ts s0 rows s1 u.
            saveActivityProgress E a sc cp an ts s0 = Some (Success rows, s1) \<and>
            auth_user E = Some u \<longrightarrow>
            filter is_progress_write (new_stmts s0 s1) =
              (case found_progress E s0 u a of
                 None \<Rightarrow> [Insert UserProgress]
               | Some p \<Rightarrow>
                   if up_id p \<noteq> 0
                   then [Update UserProgress [(''id'', Num (up_id p)), (''user_id'', Str u)]]
                   else [Insert UserProgress]))"
proof -
  from run_calls_keys [OF assms]
  have k: "progress_keys_ok (user_progress s')"
    and m: "\<forall>i<length cs. \<forall>u rows.
            auth_user (call_env (cs ! i)) = Some u \<and> rs ! i = Success rows \<longrightarrow>
            (u, call_activityId (cs ! i))
              \<in> (\<lambda>r. (up_user_id r, up_activity_id r)) ` set (user_progress s')"
    by simp_all
  from k have d: "distinct (map (\<lambda>r. (up_user_id r, up_activity_id r)) (user_progress s'))"
    by (simp add: progress_keys_ok_def)
  have one: "length (progress_of s' u a) = 1"
    if "(u, a) \<in> (\<lambda>r. (up_user_id r, up_activity_id r)) ` set (user_progress s')" for u a
    using distinct_map_filter_one [OF d that] by (simp add: progress_of_key)
  have stmts: "filter is_progress_write (new_stmts s0 s1) =
              (case found_progress E s0 u a of
                 None \<Rightarrow> [Insert UserProgress]
               | Some p \<Rightarrow>
                   if up_id p \<noteq> 0
                   then [Update UserProgress [(''id'', Num (up_id p)), (''user_id'', Str u)]]
                   else [Insert UserProgress])"
    if "saveActivityProgress E a sc cp an ts s0 = Some (Success rows, s1)" "auth_user E = Some u"
    for E a sc cp an ts s0 rows s1 u
  proof -
    from save_trace [OF that] obtain t where "trace s1 = trace s0 @ t"
      "filter is_progress_write t =
                (case found_progress E s0 u a of
                   None \<Rightarrow> [Insert UserProgress]
                 | Some p \<Rightarrow> if up_id p \<noteq> 0
                      then [Update UserProgress [(''id'', Num (up_id p)), (''user_id'', Str u)]]
                      else [Insert UserProgress])" by blast
    then show ?thesis by (simp add: new_stmts_append)
  qed
  show ?thesis
  proof (intro conjI allI impI)
    show "progress_keys_ok (user_progress s')" by (rule k)
  next
    fix i u rows
    assume "i < length cs"
      and "auth_user (call_env (cs ! i)) = Some u \<and> rs ! i = Success rows"
    with m have "(u, call_activityId (cs ! i))
              \<in> (\<lambda>r. (up_user_id r, up_activity_id r)) ` set (user_progress s')" by blast
    then show "length (progress_of s' u (call_activityId (cs ! i))) = 1" by (rule one)
  next
    fix E a sc cp an ts s0 rows s1 u
    assume "saveActivityProgress E a sc cp an ts s0 = Some (Success rows, s1) \<and>
            auth_user E = Some u"
    then have "saveActivityProgress E a sc cp an ts s0 = Some (Success rows, s1)"
      and "auth_user E = Some u" by simp_all
    then show "filter is_progress_write (new_stmts s0 s1) =
              (case found_progress E s0 u a of
                 None \<Rightarrow> [Insert UserProgress]
               | Some p \<Rightarrow>
                   if up_id p \<noteq> 0
                   then [Update UserProgress [(''id'', Num (up_id p)), (''user_id'', Str u)]]
                   else [Insert UserProgress])" by (rule stmts)
  qed
qed

theorem one_progress_row_per_pair_witness:
  "progress_keys_ok (user_progress db_empty) \<and>
   fault (call_env (call_a1 env_ok)) GetProgress = None \<and>
   (\<exists>rs s'. run_calls [call_a1 env_ok, call_a1 env_ok] db_empty = Some (rs, s') \<and>
      progress_keys_ok (user_progress s') \<and> length (progress_of s' ''u1'' ''a1'') = 1)"
proof -
  define cs where "cs = [call_a1 env_ok, call_a1 env_ok]"
  have k: "progress_keys_ok (user_progress db_empty)"
    by (simp add: progress_keys_ok_def db_empty_def)
  have f: "\<forall>c\<in>set cs. fault (call_env c) GetProgress = None"
    by (simp add: cs_def call_a1_def env_ok_def)
  have "map_option (map is_success \<circ> fst)
          (run_calls [call_a1 env_ok, call_a1 env_ok] db_empty) = Some [True, True]"
    by code_simp
  then have e: "map_option (map is_success \<circ> fst) (run_calls cs db_empty) = Some [True, True]"
    by (simp only: cs_def)
  then obtain rs s' where run: "run_calls cs db_empty = Some (rs, s')"
    and ok: "map is_success rs = [True, True]"
    by (cases "run_calls cs db_empty") auto
  from ok have "is_success (rs ! 1)" by (auto simp: map_eq_Cons_conv)
  then obtain rows where r1: "rs ! 1 = Success rows" by (cases "rs ! 1") auto
  have u: "auth_user (call_env (cs ! 1)) = Some ''u1''" "call_activityId (cs ! 1) = ''a1''"
    "1 < length cs"
    by (simp_all add: cs_def call_a1_def env_ok_def)
  from one_progress_row_per_pair [OF run k f] u r1
  have "progress_keys_ok (user_progress s')" "length (progress_of s' ''u1'' ''a1'') = 1"
    by auto
  with run have "\<exists>rs s'. run_calls cs db_empty = Some (rs, s') \<and>
      progress_keys_ok (user_progress s') \<and> length (progress_of s' ''u1'' ''a1'') = 1"
    by (intro exI [of _ rs] exI [of _ s']) simp
  moreover have "fault (call_env (call_a1 env_ok)) GetProgress = None"
    by (simp add: call_a1_def env_ok_def)
  ultimately show ?thesis using k unfolding cs_def by (intro conjI)
qed

text \<open>
  C4 as stated fails: nothing clamps the values. With the four published activities completed,
  completing the draft as well makes the aggregator write a progress of 125.
\<close>

theorem draft_completions_exceed_100_counterexample:
  "map_option (map uc_progress \<circ> user_courses \<circ> snd)
     (saveActivityProgress env_ok ''a5'' 90 True None (Some 20) db_all_done) = Some [125]"
  by code_simp


text \<open>
  C4 (as amended). Progress and score are integers. Every enrollment row that a call inserts
  or changes has both between 0 and 100, provided that afterwards every completed progress
  row of the user in the course has a score between 0 and 100 and the user has no more
  completed rows in the course than the course has published activities (fewer than
  \<open>2 ^ 32\<close>, the bound of a JavaScript array).
\<close>

theorem enrollment_values_in_range:
  assumes sv: "saveActivityProgress E activityId score completed answers timeSpent s = Some (res, s')"
    and u: "auth_user E = Some u"
    and act: "activity_of s activityId = [act]"
    and sc: "\<forall>r\<in>set (completed_of s' u (act_course_id act)). 0 \<le> up_score r \<and> up_score r \<le> 100"
    and le: "length (completed_of s' u (act_course_id act))
               \<le> length (published_of s' (act_course_id act))"
    and sz: "length (published_of s' (act_course_id act)) < 2 ^ 32"
  shows "\<forall>r\<in>set (user_courses s'). r \<in> set (user_courses s) \<or> enrollment_in_range r"
  using sv
proof (cases rule: save_cases)
  case (early m)
  then show ?thesis by simp
next
  case (no_activity m)
  then show ?thesis by (simp add: issue_def)
next
  case (write_failed v act' d e)
  let ?s2 = "autoEnroll E v (act_course_id act') (issue (Select Activities [(''id'', Str activityId)]) s)"
  have "user_courses s' = user_courses ?s2"
    using writeProgress_user_courses [of E v activityId "act_course_id act'" score completed
        answers timeSpent ?s2] write_failed(3) by simp
  then show ?thesis using autoEnroll_issue_new_rows by auto
next
  case (saved v act' rows s3)
  from saved(1) u have vu: "v = u" by simp
  from saved(2) act have aa: "act' = act" by simp
  let ?c = "act_course_id act"
  let ?s2 = "autoEnroll E u ?c (issue (Select Activities [(''id'', Str activityId)]) s)"
  note w = saved(3) [unfolded vu aa] and g = saved(4) [unfolded vu aa]
  have uc3: "user_courses s3 = user_courses ?s2"
    using writeProgress_user_courses [of E u activityId ?c score completed answers timeSpent ?s2] w
    by simp
  from updateCourseProgress_frame [OF g]
  have fr: "activities s' = activities s3" "user_progress s' = user_progress s3" by simp_all
  have sc3: "\<forall>r\<in>set (completed_of s3 u ?c). 0 \<le> up_score r \<and> up_score r \<le> 100"
    using sc by (simp only: completed_of_cong [OF fr(2)])
  have le3: "length (completed_of s3 u ?c) \<le> length (published_of s3 ?c)"
    using le by (simp only: completed_of_cong [OF fr(2)] published_of_cong [OF fr(1)])
  have sz3: "length (published_of s3 ?c) < 2 ^ 32"
    using sz by (simp only: published_of_cong [OF fr(1)])
  show ?thesis
  proof
    fix r assume "r \<in> set (user_courses s')"
    from updateCourseProgress_new_rows [OF g sc3 le3 sz3 this]
    show "r \<in> set (user_courses s) \<or> enrollment_in_range r"
      using autoEnroll_issue_new_rows [of r E u ?c _ s] by (auto simp: uc3)
  qed
qed


theorem enrollment_values_in_range_witness:
  "auth_user env_ok = Some ''u1'' \<and>
   activity_of db_three_done ''a4''
     = [\<lparr>act_id = ''a4'', act_course_id = ''c1'', act_status = ''published''\<rparr>] \<and>
   (\<exists>res s'. saveActivityProgress env_ok ''a4'' 90 True None (Some 20) db_three_done
                 = Some (res, s') \<and>
      (\<forall>r\<in>set (completed_of s' ''u1'' ''c1''). 0 \<le> up_score r \<and> up_score r \<le> 100) \<and>
      length (completed_of s' ''u1'' ''c1'') \<le> length (published_of s' ''c1'') \<and>
      length (published_of s' ''c1'') < 2 ^ 32 \<and>
      (\<forall>r\<in>set (user_courses s'). r \<in> set (user_courses db_three_done) \<or> enrollment_in_range r))"
proof -
  let ?act = "\<lparr>act_id = ''a4'', act_course_id = ''c1'', act_status = ''published''\<rparr>"
  have u: "auth_user env_ok = Some ''u1''" by (simp add: env_ok_def)
  have a: "activity_of db_three_done ''a4'' = [?act]" by code_simp
  have "succeeded (saveActivityProgress env_ok ''a4'' 90 True None (Some 20) db_three_done)"
    by code_simp
  then obtain rows s' where
    sv: "saveActivityProgress env_ok ''a4'' 90 True None (Some 20) db_three_done
           = Some (Success rows, s')"
    by (rule succeededE)
  have "map_option (\<lambda>x. list_all (\<lambda>r. 0 \<le> up_score r \<and> up_score r \<le> 100)
                           (completed_of (snd x) ''u1'' ''c1''))
          (saveActivityProgress env_ok ''a4'' 90 True None (Some 20) db_three_done) = Some True"
    by code_simp
  then have sc: "\<forall>r\<in>set (completed_of s' ''u1'' (act_course_id ?act)).
                   0 \<le> up_score r \<and> up_score r \<le> 100"
    by (simp add: sv list_all_iff)
  have "map_option (\<lambda>x. length (completed_of (snd x) ''u1'' ''c1'')
                           \<le> length (published_of (snd x) ''c1''))
          (saveActivityProgress env_ok ''a4'' 90 True None (Some 20) db_three_done) = Some True"
    by code_simp
  then have le: "length (completed_of s' ''u1'' (act_course_id ?act))
                   \<le> length (published_of s' (act_course_id ?act))"
    by (simp add: sv)
  have "map_option (\<lambda>x. length (published_of (snd x) ''c1'') < 5)
          (saveActivityProgress env_ok ''a4'' 90 True None (Some 20) db_three_done) = Some True"
    by code_simp
  then have "length (published_of s' ''c1'') < 5" by (simp add: sv)
  then have sz: "length (published_of s' (act_course_id ?act)) < 2 ^ 32" by simp
  from enrollment_values_in_range [OF sv u a sc le sz]
  have "\<forall>r\<in>set (user_courses s'). r \<in> set (user_courses db_three_done) \<or> enrollment_in_range r" .
  with sv sc le sz
  have "\<exists>res s'. saveActivityProgress env_ok ''a4'' 90 True None (Some 20) db_three_done
                 = Some (res, s') \<and>
      (\<forall>r\<in>set (completed_of s' ''u1'' ''c1''). 0 \<le> up_score r \<and> up_score r \<le> 100) \<and>
      length (completed_of s' ''u1'' ''c1'') \<le> length (published_of s' ''c1'') \<and>
      length (published_of s' ''c1'') < 2 ^ 32 \<and>
      (\<forall>r\<in>set (user_courses s'). r \<in> set (user_courses db_three_done) \<or> enrollment_in_range r)"
    by (intro exI [of _ "Success rows"] exI [of _ s']) simp
  with u a show ?thesis by (intro conjI)
qed

text \<open>
  C5 as stated fails: when the enrollment insert of the recorder faults, the save still
  succeeds, the counter stays at 7, and the one enrollment row is the aggregator's, with
  progress 25.
\<close>

theorem failed_enrollment_insert_counterexample:
  "succeeded (saveActivityProgress env_enroll_fault ''a1'' 80 True None (Some 12) db_empty) \<and>
   map_option (map uc_progress \<circ> user_courses \<circ> snd)
     (saveActivityProgress env_enroll_fault ''a1'' 80 True None (Some 12) db_empty) = Some [25] \<and>
   map_option (map crs_total_enrollment \<circ> courses \<circ> snd)
     (saveActivityProgress env_enroll_fault ''a1'' 80 True None (Some 12) db_empty) = Some [7]"
  by code_simp


text \<open>
  C5 (as amended). Let the user have no enrollment row for the activity's course, let the
  course have exactly one row, with a counter below \<open>2 ^ 53\<close> in absolute value, and let the
  enrollment insert, the counter's read and update and the aggregator's enrollment lookup
  not fault. Then a successful save inserts one enrollment row with progress 0 and score 0
  before it writes the progress row, and the store it leaves holds the old enrollment rows
  and that one row, whose progress and score are still 0 or are both the aggregator's values
  of the same call. The course's counter is the value read plus one, written by a select and
  an update filtered by the course id.
\<close>

theorem first_save_enrolls_once:
  assumes sv: "saveActivityProgress E activityId score completed answers timeSpent s
                 = Some (Success rows, s')"
    and u: "auth_user E = Some u"
    and act: "activity_of s activityId = [act]"
    and none: "enrollments_of s u (act_course_id act) = []"
    and crs: "course_of s (act_course_id act) = [k]"
    and bound: "\<bar>crs_total_enrollment k\<bar> < 2 ^ 53"
    and nf: "fault E InsertUserCourse = None"
      "fault E GetCourse = None" "fault E UpdateCourse = None" "fault E AggUserCourse = None"
  shows "\<exists>s3 p a.
           writeProgress E u activityId (act_course_id act) score completed answers timeSpent
               (autoEnroll E u (act_course_id act)
                  (issue (Select Activities [(''id'', Str activityId)]) s))
             = ((Some rows, None), s3) \<and>
           updateCourseProgress E u (act_course_id act) s3 = Some s' \<and>
           user_courses s3
             = user_courses s @
                 [enrollment_row u (act_course_id act) 0 0 (now E)
                    (next_id (map uc_id (user_courses s)))] \<and>
           user_courses s'
             = user_courses s @
                 [enrollment_row u (act_course_id act) p a (now E)
                    (next_id (map uc_id (user_courses s)))] \<and>
           (p = 0 \<and> a = 0 \<or>
            progressPercentage (completedCount s' u (act_course_id act))
                (totalActivities s' (act_course_id act)) = Some p \<and>
            averageScore (completed_of s' u (act_course_id act)) = Some a) \<and>
           courses s'
             = map (\<lambda>r. if crs_id r = act_course_id act
                         then enrollment_count (crs_total_enrollment k + 1) (now E) r
                         else r) (courses s) \<and>
           take 5 (new_stmts s s')
             = [Select Activities [(''id'', Str activityId)],
                Select UserCourses [(''user_id'', Str u), (''course_id'', Str (act_course_id act))],
                Insert UserCourses,
                Select Courses [(''id'', Str (act_course_id act))],
                Update Courses [(''id'', Str (act_course_id act))]]"
proof -
  let ?c = "act_course_id act"
  let ?i = "next_id (map uc_id (user_courses s))"
  let ?s1 = "issue (Select Activities [(''id'', Str activityId)]) s"
  let ?s2 = "autoEnroll E u ?c ?s1"
  from sv obtain act' s3 v where
    "client_throws E = None" "auth_error E = None"
    and v: "auth_user E = Some v"
    and "fault E GetActivity = None" and act': "activity_of s activityId = [act']"
    and w: "writeProgress E v activityId (act_course_id act') score completed answers timeSpent
       (autoEnroll E v (act_course_id act') (issue (Select Activities [(''id'', Str activityId)]) s))
      = ((Some rows, None), s3)"
    and g: "updateCourseProgress E v (act_course_id act') s3 = Some s'"
    by (rule save_Success)
  from v u have vu: "v = u" by simp
  from act act' have aa: "act' = act" by simp
  note w = w [unfolded vu aa] and g = g [unfolded vu aa]
  have e1: "enrollments_of ?s1 u ?c = []" using none by (simp add: enrollments_of_def issue_def)
  have c1: "course_of ?s1 ?c = [k]" using crs by (simp add: course_of_def issue_def)
  have s2: "?s2 =
      ?s1\<lparr>user_courses := user_courses ?s1 @
                  [enrollment_row u ?c 0 0 (now E) (next_id (map uc_id (user_courses ?s1)))],
              courses := map (\<lambda>r. if crs_id r = ?c
                                    then enrollment_count
                                      (stored_int (js_add (js_number (crs_total_enrollment k)) 1))
                                      (now E) r
                                    else r) (courses ?s1),
              trace := trace ?s1 @
                  [Select UserCourses [(''user_id'', Str u), (''course_id'', Str ?c)],
                   Insert UserCourses,
                   Select Courses [(''id'', Str ?c)],
                   Update Courses [(''id'', Str ?c)]]\<rparr>"
    by (rule autoEnroll_new [OF nf(1-3) e1 c1])
  have uc2: "user_courses ?s2 = user_courses s @ [enrollment_row u ?c 0 0 (now E) ?i]"
    by (subst s2) (simp add: issue_def)
  have cr2: "courses ?s2 = map (\<lambda>r. if crs_id r = ?c
                                    then enrollment_count (crs_total_enrollment k + 1) (now E) r
                                    else r) (courses s)"
    by (subst s2) (simp add: issue_def js_increment_exact [OF bound])
  have tr2: "trace ?s2 = trace s @
                  [Select Activities [(''id'', Str activityId)],
                   Select UserCourses [(''user_id'', Str u), (''course_id'', Str ?c)],
                   Insert UserCourses,
                   Select Courses [(''id'', Str ?c)],
                   Update Courses [(''id'', Str ?c)]]"
    by (subst s2) (simp add: issue_def)
  have s3: "s3 = snd (writeProgress E u activityId ?c score completed answers timeSpent ?s2)"
    using w by simp
  have uc3: "user_courses s3 = user_courses ?s2" by (simp add: s3 writeProgress_user_courses)
  have cr3: "courses s3 = courses ?s2" by (simp add: s3 writeProgress_courses)
  from writeProgress_trace_prefix [of E u activityId ?c score completed answers timeSpent ?s2]
  obtain t2 where tr3: "trace s3 = trace ?s2 @ t2" unfolding s3 by blast
  from updateCourseProgress_trace [OF g] obtain t3 where tr': "trace s' = trace s3 @ t3" by blast
  have fresh: "?i \<notin> set (map uc_id (user_courses s))" by (rule next_id_notin)
  have nz: "?i \<noteq> 0" by (rule next_id_nonzero)
  have none': "filter (\<lambda>r. uc_user_id r = u \<and> uc_course_id r = ?c) (user_courses s) = []"
    using none by (simp add: enrollments_of_def)
  have fr: "activities s' = activities s3" "user_progress s' = user_progress s3"
    "courses s' = courses s3"
    using updateCourseProgress_frame [OF g] by simp_all
  have same: "completedCount s' u ?c = completedCount s3 u ?c"
    "totalActivities s' ?c = totalActivities s3 ?c"
    "completed_of s' u ?c = completed_of s3 u ?c"
    by (simp_all add: completedCount_def totalActivities_def completed_of_def published_of_def fr)
  from updateCourseProgress_after_enroll [OF g uc3 [unfolded uc2] fresh nz none' nf(4)]
  obtain p a where
    final: "user_courses s' = user_courses s @ [enrollment_row u ?c p a (now E) ?i]"
    and pa: "p = 0 \<and> a = 0 \<or>
       progressPercentage (completedCount s' u ?c) (totalActivities s' ?c) = Some p \<and>
       averageScore (completed_of s' u ?c) = Some a"
    unfolding same by blast
  have "new_stmts s s' =
          [Select Activities [(''id'', Str activityId)],
           Select UserCourses [(''user_id'', Str u), (''course_id'', Str ?c)],
           Insert UserCourses,
           Select Courses [(''id'', Str ?c)],
           Update Courses [(''id'', Str ?c)]] @ t2 @ t3"
    by (rule new_stmts_append) (simp add: tr' tr3 tr2)
  then have tk: "take 5 (new_stmts s s') =
          [Select Activities [(''id'', Str activityId)],
           Select UserCourses [(''user_id'', Str u), (''course_id'', Str ?c)],
           Insert UserCourses,
           Select Courses [(''id'', Str ?c)],
           Update Courses [(''id'', Str ?c)]]"
    by simp
  have cr': "courses s' = map (\<lambda>r. if crs_id r = ?c
                                    then enrollment_count (crs_total_enrollment k + 1) (now E) r
                                    else r) (courses s)"
    by (simp only: fr(3) cr3 cr2)
  have uc3': "user_courses s3 = user_courses s @ [enrollment_row u ?c 0 0 (now E) ?i]"
    by (simp only: uc3 uc2)
  from w g uc3' final pa cr' tk show ?thesis
    by (intro exI [of _ s3] exI [of _ p] exI [of _ a] conjI)
qed

theorem first_save_enrolls_once_witness:
  "auth_user env_ok = Some ''u1'' \<and>
   activity_of db_empty ''a1''
     = [\<lparr>act_id = ''a1'', act_course_id = ''c1'', act_status = ''published''\<rparr>] \<and>
   enrollments_of db_empty ''u1'' ''c1'' = [] \<and>
   course_of db_empty ''c1''
     = [\<lparr>crs_id = ''c1'', crs_total_enrollment = 7, crs_updated_at = ''2024-12-01''\<rparr>] \<and>
   \<bar>7 :: int\<bar> < 2 ^ 53 \<and>
   fault env_ok InsertUserCourse = None \<and>
   fault env_ok GetCourse = None \<and> fault env_ok UpdateCourse = None \<and>
   fault env_ok AggUserCourse = None \<and>
   (\<exists>rows s'. saveActivityProgress env_ok ''a1'' 80 True None (Some 12) db_empty
                 = Some (Success rows, s') \<and>
      length (user_courses s') = 1 \<and> map crs_total_enrollment (courses s') = [8])"
proof -
  let ?act = "\<lparr>act_id = ''a1'', act_course_id = ''c1'', act_status = ''published''\<rparr>"
  let ?k = "\<lparr>crs_id = ''c1'', crs_total_enrollment = 7, crs_updated_at = ''2024-12-01''\<rparr>"
  have u: "auth_user env_ok = Some ''u1''" by (simp add: env_ok_def)
  have a: "activity_of db_empty ''a1'' = [?act]" by code_simp
  have e: "enrollments_of db_empty ''u1'' ''c1'' = []" by code_simp
  have c: "course_of db_empty ''c1'' = [?k]" by code_simp
  have b: "\<bar>7 :: int\<bar> < 2 ^ 53" by simp
  have nf: "fault env_ok InsertUserCourse = None"
    "fault env_ok GetCourse = None" "fault env_ok UpdateCourse = None"
    "fault env_ok AggUserCourse = None"
    by (simp_all add: env_ok_def)
  have e': "enrollments_of db_empty ''u1'' (act_course_id ?act) = []" using e by simp
  have c': "course_of db_empty (act_course_id ?act) = [?k]" using c by simp
  have b': "\<bar>crs_total_enrollment ?k\<bar> < 2 ^ 53" by simp
  have "succeeded (saveActivityProgress env_ok ''a1'' 80 True None (Some 12) db_empty)"
    by code_simp
  then obtain rows s' where
    sv: "saveActivityProgress env_ok ''a1'' 80 True None (Some 12) db_empty = Some (Success rows, s')"
    by (rule succeededE)
  have crs0: "courses db_empty = [?k]" "user_courses db_empty = []" by (simp_all add: db_empty_def)
  from first_save_enrolls_once [OF sv u a e' c' b' nf]
  have "length (user_courses s') = 1 \<and> map crs_total_enrollment (courses s') = [8]"
    by (auto simp: crs0 enrollment_count_def)
  with sv have "\<exists>rows s'. saveActivityProgress env_ok ''a1'' 80 True None (Some 12) db_empty
                 = Some (Success rows, s') \<and>
      length (user_courses s') = 1 \<and> map crs_total_enrollment (courses s') = [8]"
    by (intro exI [of _ rows] exI [of _ s']) simp
  with u a e c b nf show ?thesis by (intro conjI)
qed

text \<open>
  Outside the bound the sum is rounded: with the counter at \<open>2 ^ 53\<close> the first save enrolls
  the user and writes the counter back unchanged.
\<close>

lemma counter_saturates_example:
  "succeeded (saveActivityProgress env_ok ''a1'' 80 True None (Some 12) db_counter_full) \<and>
   map_option (map crs_total_enrollment \<circ> courses \<circ> snd)
     (saveActivityProgress env_ok ''a1'' 80 True None (Some 12) db_counter_full)
     = Some [9007199254740992]"
  by code_simp

text \<open>
  C6 as stated fails: the failure carries a message and no tag. Without a session the error
  is the auth provider's message when it has one (\<open>Auth session missing!\<close>) and
  \<open>User not authenticated\<close> otherwise, and a save with a valid session whose progress write
  faults with that message returns the same result.
\<close>

theorem unauthenticated_failure_is_a_message_counterexample:
  "auth_user env_session_missing = None \<and> auth_user env_anonymous = None \<and>
   map_option fst
     (saveActivityProgress env_session_missing ''a1'' 80 True None (Some 12) db_three_done)
     = Some (Failure ''Auth session missing!'') \<and>
   map_option fst
     (saveActivityProgress env_anonymous ''a1'' 80 True None (Some 12) db_three_done)
     = Some (Failure ''User not authenticated'') \<and>
   auth_user env_write_fault = Some ''u1'' \<and> auth_error env_write_fault = None \<and>
   map_option fst
     (saveActivityProgress env_write_fault ''a1'' 80 True None (Some 12) db_three_done)
     = Some (Failure ''Auth session missing!'')"
  by code_simp

text \<open>
  C6 (as amended). Without a valid session (no user, or an error from the auth provider) the
  action returns a failure and the store it leaves is the store it found: no statement was
  sent. The error of the failure is the message of the exception when creating the client
  raised, else the provider's message, or \<open>User not authenticated\<close> when there is none.
\<close>

theorem unauthenticated_save_fails_without_writes:
  assumes "auth_user E = None \<or> auth_error E \<noteq> None"
  shows "saveActivityProgress E activityId score completed answers timeSpent s =
           Some (Failure (case client_throws E of
                            Some m \<Rightarrow> m
                          | None \<Rightarrow> message_or (auth_error E) ''User not authenticated''), s)"
  using assms by (auto simp: saveActivityProgress_def split: option.splits)

theorem unauthenticated_save_fails_without_writes_witness:
  "(auth_user env_anonymous = None \<or> auth_error env_anonymous \<noteq> None) \<and>
   saveActivityProgress env_anonymous ''a1'' 80 True None (Some 12) db_three_done =
     Some (Failure ''User not authenticated'', db_three_done)"
proof -
  have h: "auth_user env_anonymous = None \<or> auth_error env_anonymous \<noteq> None"
    by (simp add: env_anonymous_def)
  from unauthenticated_save_fails_without_writes [OF h, of "''a1''" 80 True None "Some 12" db_three_done]
  show ?thesis using h by (simp add: env_anonymous_def env_ok_def message_or_def)
qed

text \<open>
  C7 as stated fails: the failure carries a message and no tag. For an unknown id the error
  is the message of the store's PGRST116 error, not \<open>Activity not found\<close>; and when the
  lookup faults, the save of an unknown activity and the save of an existing one return the
  same result.
\<close>

theorem unknown_activity_failure_is_a_message_counterexample:
  "activity_of db_three_done ''a9'' = [] \<and>
   map_option fst (saveActivityProgress env_ok ''a9'' 80 True None (Some 12) db_three_done)
     = Some (Failure ''JSON object requested, multiple (or no) rows returned'') \<and>
   map_option fst (saveActivityProgress env_activity_fault ''a9'' 80 True None (Some 12) db_three_done)
     = Some (Failure ''statement timeout'') \<and>
   activity_of db_three_done ''a1''
     = [\<lparr>act_id = ''a1'', act_course_id = ''c1'', act_status = ''published''\<rparr>] \<and>
   map_option fst (saveActivityProgress env_activity_fault ''a1'' 80 True None (Some 12) db_three_done)
     = Some (Failure ''statement timeout'')"
  by code_simp

text \<open>
  C7 (as amended). With a valid session and no activity of that id, the action returns a
  failure after one select on \<^verbatim>\<open>activities\<close>; the four tables are unchanged. The error of
  the failure is the message of the lookup's error (PGRST116 when the store answers, the
  fault's otherwise), or \<open>Activity not found\<close> when that message is empty.
\<close>

theorem unknown_activity_fails_without_writes:
  assumes "client_throws E = None" and "auth_error E = None" and "auth_user E = Some u"
    and "activity_of s activityId = []"
  shows "saveActivityProgress E activityId score completed answers timeSpent s =
           Some (Failure (message_or
                   (Some (case fault E GetActivity of None \<Rightarrow> PGRST116 | Some e \<Rightarrow> e))
                   ''Activity not found''),
                 s\<lparr>trace := trace s @ [Select Activities [(''id'', Str activityId)]]\<rparr>)"
  using assms
  by (simp add: saveActivityProgress_def single_activities_def select_single_def issue_def
      matches_simps activity_of_def split: option.splits)

theorem unknown_activity_fails_without_writes_witness:
  "client_throws env_ok = None \<and> auth_error env_ok = None \<and> auth_user env_ok = Some ''u1'' \<and>
   activity_of db_three_done ''a9'' = [] \<and>
   saveActivityProgress env_ok ''a9'' 80 True None (Some 12) db_three_done =
     Some (Failure ''JSON object requested, multiple (or no) rows returned'',
           db_three_done\<lparr>trace := [Select Activities [(''id'', Str ''a9'')]]\<rparr>)"
proof -
  have h: "client_throws env_ok = None" "auth_error env_ok = None" "auth_user env_ok = Some ''u1''"
    by (simp_all add: env_ok_def)
  have a: "activity_of db_three_done ''a9'' = []"
    by (simp add: activity_of_def db_three_done_def db_empty_def)
  from unknown_activity_fails_without_writes [OF h a, of 80 True None "Some 12"]
  show ?thesis using h a
    by (simp add: env_ok_def message_or_def PGRST116_def db_three_done_def db_empty_def)
qed

text \<open>
  C8. For a course without a published activity the aggregator stops after its first select:
  the four tables are unchanged and no other statement is sent. No run of the aggregator, on
  any store, evaluates a division by zero (the result is never \<open>None\<close>).
\<close>

theorem aggregator_without_published_writes_nothing:
  assumes "published_of s c = []"
  shows "updateCourseProgress E u c s =
           Some (s\<lparr>trace := trace s @
                   [Select Activities [(''course_id'', Str c), (''status'', Str ''published'')]]\<rparr>) \<and>
         (\<forall>E' u' c' s0. updateCourseProgress E' u' c' s0 \<noteq> None)"
proof -
  have "updateCourseProgress E' u' c' s0 \<noteq> None" for E' u' c' s0
    using updateCourseProgress_total [of E' u' c' s0] by auto
  then show ?thesis using assms by (simp add: updateCourseProgress_eq Let_def issue_def)
qed

theorem aggregator_without_published_writes_nothing_witness:
  "published_of db_three_done ''c2'' = [] \<and>
   updateCourseProgress env_ok ''u1'' ''c2'' db_three_done =
     Some (db_three_done\<lparr>trace :=
             [Select Activities [(''course_id'', Str ''c2''), (''status'', Str ''published'')]]\<rparr>)"
proof -
  have h: "published_of db_three_done ''c2'' = []"
    by (simp add: published_of_def db_three_done_def db_empty_def)
  from aggregator_without_published_writes_nothing [OF h, of env_ok "''u1''"]
  have "updateCourseProgress env_ok ''u1'' ''c2'' db_three_done =
     Some (db_three_done\<lparr>trace := trace db_three_done @
             [Select Activities [(''course_id'', Str ''c2''), (''status'', Str ''published'')]]\<rparr>)"
    by simp
  then show ?thesis using h by (simp add: db_three_done_def db_empty_def)
qed

text \<open>
  C9 as stated fails: the update of the course's enrollment counter is filtered by the course
  id alone. The writes of a first save, in order:
\<close>

theorem course_counter_update_without_user_filter_counterexample:
  "map_option (filter is_write \<circ> trace \<circ> snd)
     (saveActivityProgress env_ok ''a1'' 80 True None (Some 12) db_empty)
     = Some [Insert UserCourses, Update Courses [(''id'', Str ''c1'')], Insert UserProgress,
             Update UserCourses [(''id'', Num 1), (''user_id'', Str ''u1'')]] \<and>
   \<not> carries_user_filter ''u1'' (Update Courses [(''id'', Str ''c1'')])"
  by code_simp

text \<open>
  C9 (as amended). Every update that a call sends to \<^verbatim>\<open>user_progress\<close> or to
  \<^verbatim>\<open>user_courses\<close>, the aggregator's included, carries an equality filter on the acting
  user's id; the update of \<^verbatim>\<open>courses\<close> is filtered by the course id only and
  \<^verbatim>\<open>activities\<close> is never updated. The progress rows and the enrollment rows of every
  other user, and the activities, are the same after the call as before.
\<close>

theorem updates_are_scoped_to_the_acting_user:
  assumes "saveActivityProgress E activityId score completed answers timeSpent s = Some (res, s')"
    and "auth_user E = Some u"
  shows "trace s' = trace s @ new_stmts s s' \<and>
         list_all (update_scope u) (new_stmts s s') \<and>
         filter (\<lambda>r. up_user_id r \<noteq> u) (user_progress s')
           = filter (\<lambda>r. up_user_id r \<noteq> u) (user_progress s) \<and>
         filter (\<lambda>r. uc_user_id r \<noteq> u) (user_courses s')
           = filter (\<lambda>r. uc_user_id r \<noteq> u) (user_courses s) \<and>
         activities s' = activities s"
proof -
  from save_trace [OF assms] obtain t where
    t: "trace s' = trace s @ t" "list_all (update_scope u) t" by blast
  then have "new_stmts s s' = t" by (simp add: new_stmts_append)
  with t save_others [OF assms] show ?thesis by simp
qed

theorem updates_are_scoped_to_the_acting_user_witness:
  "auth_user env_ok = Some ''u1'' \<and>
   (\<exists>res s'. saveActivityProgress env_ok ''a1'' 85 True None None db_three_done = Some (res, s') \<and>
      list_all (update_scope ''u1'') (new_stmts db_three_done s') \<and>
      activities s' = activities db_three_done)"
proof -
  have u: "auth_user env_ok = Some ''u1''" by (simp add: env_ok_def)
  have "succeeded (saveActivityProgress env_ok ''a1'' 85 True None None db_three_done)"
    by code_simp
  then obtain rows s' where
    sv: "saveActivityProgress env_ok ''a1'' 85 True None None db_three_done = Some (Success rows, s')"
    by (rule succeededE)
  from updates_are_scoped_to_the_acting_user [OF sv u] sv u show ?thesis by blast
qed

text \<open>
  C10. The completion flag is last-write-wins. When the pair's row has \<open>completed = true\<close>
  and a save with \<open>completed = false\<close> succeeds, every row the save writes is in the table
  with \<open>completed = false\<close>; when the lookup did not fault and the keys of the table are in
  order, the pair's row is that row, under its old id. The aggregation that follows can lower
  the percentage: in \<open>db_three_done\<close> it goes from 75 to 50.
\<close>

theorem completed_flag_is_last_write_wins:
  assumes "saveActivityProgress E activityId score False answers timeSpent s
             = Some (Success rows, s')"
    and "auth_user E = Some u"
    and "progress_of s u activityId = [p]" and "up_completed p"
  shows "rows \<noteq> [] \<and>
         (\<forall>r\<in>set rows. r \<in> set (user_progress s') \<and> up_user_id r = u \<and>
            up_activity_id r = activityId \<and> \<not> up_completed r) \<and>
         (fault E GetProgress = None \<and> progress_keys_ok (user_progress s) \<longrightarrow>
            progress_of s' u activityId = rows \<and> map up_id rows = [up_id p]) \<and>
         (map uc_progress (user_courses db_three_done) = [75] \<and>
          map_option (map uc_progress \<circ> user_courses \<circ> snd)
            (saveActivityProgress env_ok ''a1'' 80 False None None db_three_done) = Some [50])"
proof -
  have written: "rows \<noteq> [] \<and>
         (\<forall>r\<in>set rows. r \<in> set (user_progress s') \<and> up_user_id r = u \<and>
            up_activity_id r = activityId \<and> \<not> up_completed r)"
    using save_Success_rows [OF assms(1,2)] by simp
  have lower: "map uc_progress (user_courses db_three_done) = [75] \<and>
          map_option (map uc_progress \<circ> user_courses \<circ> snd)
            (saveActivityProgress env_ok ''a1'' 80 False None None db_three_done) = Some [50]"
    by code_simp
  have same: "progress_of s' u activityId = rows \<and> map up_id rows = [up_id p]"
    if nf: "fault E GetProgress = None" and k: "progress_keys_ok (user_progress s)"
  proof -
    from assms(1) obtain act s3 v where
      "client_throws E = None" "auth_error E = None"
      and v: "auth_user E = Some v"
      and "fault E GetActivity = None" "activity_of s activityId = [act]"
      and w: "writeProgress E v activityId (act_course_id act) score False answers timeSpent
         (autoEnroll E v (act_course_id act) (issue (Select Activities [(''id'', Str activityId)]) s))
        = ((Some rows, None), s3)"
      and g: "updateCourseProgress E v (act_course_id act) s3 = Some s'"
      by (rule save_Success)
    from v assms(2) have vu: "v = u" by simp
    note w = w [unfolded vu] and g = g [unfolded vu]
    let ?s2 = "autoEnroll E u (act_course_id act) (issue (Select Activities [(''id'', Str activityId)]) s)"
    have up2: "user_progress ?s2 = user_progress s" by (rule autoEnroll_issue_user_progress)
    have "found_progress E s u activityId = Some p"
      using assms(3) nf by (simp add: found_progress_def)
    then have f: "found_progress E ?s2 u activityId = Some p"
      by (simp only: found_progress_cong [OF up2])
    from k assms(3) have idp: "up_id p \<noteq> 0"
      using progress_keys_found [OF k nf, of u activityId]
      by (auto simp: found_progress_def nf)
    have k2: "progress_keys_ok (user_progress ?s2)" using k up2 by simp
    let ?f = "progressData u activityId (act_course_id act) score False answers
                (time_spent_of timeSpent (Some p)) (now E)"
    let ?Q = "\<lambda>x. up_id x = up_id p \<and> up_user_id x = u"
    from k have inj: "inj_on up_id (set (user_progress s))"
      by (simp add: progress_keys_ok_def distinct_map)
    have pin: "p \<in> set (user_progress s)" "up_user_id p = u" "up_activity_id p = activityId"
      using found_progress_Some [OF f] by (simp_all add: up2)
    have Qp: "x = p" if "x \<in> set (user_progress s)" "?Q x" for x
      using inj that pin(1) by (auto dest: inj_onD)
    have fq: "filter ?Q (user_progress s) = [p]"
    proof -
      have "filter ?Q (user_progress s)
              = filter (\<lambda>x. up_user_id x = u \<and> up_activity_id x = activityId) (user_progress s)"
      proof (rule filter_cong [OF refl])
        fix x assume x: "x \<in> set (user_progress s)"
        show "?Q x = (up_user_id x = u \<and> up_activity_id x = activityId)"
        proof
          assume "?Q x"
          with x have "x = p" by (rule Qp)
          then show "up_user_id x = u \<and> up_activity_id x = activityId" by (simp add: pin)
        next
          assume "up_user_id x = u \<and> up_activity_id x = activityId"
          with x have "x \<in> set (progress_of s u activityId)" by (simp add: progress_of_def)
          then have "x = p" by (simp add: assms(3))
          then show "?Q x" by (simp add: pin)
        qed
      qed
      then show ?thesis using assms(3) by (simp add: progress_of_def)
    qed
    from w [unfolded writeProgress_update_path [OF f idp]]
    have rows: "rows = map ?f (filter ?Q (user_progress s))"
      and tab: "user_progress s3 = map (\<lambda>x. if ?Q x then ?f x else x) (user_progress s)"
      by (auto simp: update_user_progress_def issue_def Let_def update_rows_def matches_simps
          autoEnroll_user_progress split: option.splits)
    have "filter (\<lambda>x. up_user_id x = u \<and> up_activity_id x = activityId)
            (map (\<lambda>x. if ?Q x then ?f x else x) (user_progress s))
          = map ?f (filter (\<lambda>x. up_user_id x = u \<and> up_activity_id x = activityId) (user_progress s))"
    proof (rule filter_update_matched)
      fix x assume "x \<in> set (user_progress s)" "up_user_id x = u \<and> up_activity_id x = activityId"
      then have "x \<in> set (progress_of s u activityId)" by (simp add: progress_of_def)
      then show "?Q x" by (simp add: assms(3) pin)
    next
      fix x assume "x \<in> set (user_progress s)" "?Q x"
      then have "x = p" by (rule Qp)
      then show "(up_user_id (?f x) = u \<and> up_activity_id (?f x) = activityId)
                   = (up_user_id x = u \<and> up_activity_id x = activityId)"
        by (simp add: progressData_def pin)
    qed
    then have "progress_of s3 u activityId = map ?f (progress_of s u activityId)"
      by (simp add: progress_of_def tab)
    moreover have "user_progress s' = user_progress s3"
      using updateCourseProgress_frame [OF g] by simp
    ultimately have "progress_of s' u activityId = map ?f [p]"
      by (simp add: progress_of_def assms(3) [unfolded progress_of_def])
    then show ?thesis by (simp add: rows fq progressData_def)
  qed
  show ?thesis using written lower same by blast
qed

theorem completed_flag_is_last_write_wins_witness:
  "auth_user env_ok = Some ''u1'' \<and>
   progress_of db_three_done ''u1'' ''a1''
     = [progress_row ''u1'' ''a1'' ''c1'' 80 True None 30 ''2024-12-24'' 1] \<and>
   up_completed (progress_row ''u1'' ''a1'' ''c1'' 80 True None 30 ''2024-12-24'' 1) \<and>
   (\<exists>rows s'. saveActivityProgress env_ok ''a1'' 80 False None None db_three_done
                 = Some (Success rows, s') \<and>
      progress_of s' ''u1'' ''a1'' = rows \<and> map up_id rows = [1] \<and>
      (\<forall>r\<in>set rows. \<not> up_completed r))"
proof -
  have u: "auth_user env_ok = Some ''u1''" by (simp add: env_ok_def)
  have p: "progress_of db_three_done ''u1'' ''a1''
     = [progress_row ''u1'' ''a1'' ''c1'' 80 True None 30 ''2024-12-24'' 1]"
    by code_simp
  have c: "up_completed (progress_row ''u1'' ''a1'' ''c1'' 80 True None 30 ''2024-12-24'' 1)"
    by (simp add: progress_row_def)
  have nf: "fault env_ok GetProgress = None" by (simp add: env_ok_def)
  have k: "progress_keys_ok (user_progress db_three_done)" by code_simp
  have "succeeded (saveActivityProgress env_ok ''a1'' 80 False None None db_three_done)"
    by code_simp
  then obtain rows s' where
    sv: "saveActivityProgress env_ok ''a1'' 80 False None None db_three_done = Some (Success rows, s')"
    by (rule succeededE)
  from completed_flag_is_last_write_wins [OF sv u p c] nf k
  have "progress_of s' ''u1'' ''a1'' = rows \<and> map up_id rows = [1] \<and>
      (\<forall>r\<in>set rows. \<not> up_completed r)"
    by (simp add: progress_row_def)
  with sv have "\<exists>rows s'. saveActivityProgress env_ok ''a1'' 80 False None None db_three_done
                 = Some (Success rows, s') \<and>
      progress_of s' ''u1'' ''a1'' = rows \<and> map up_id rows = [1] \<and>
      (\<forall>r\<in>set rows. \<not> up_completed r)"
    by (intro exI [of _ rows] exI [of _ s']) simp
  with u p c show ?thesis by (intro conjI)
qed

end
